theory Spec2Isabelle
  imports Complex_Main "HOL-Library.Multiset"
begin

section \<open>IIR filter design (src/filter/src/iirdes.c)\<close>

text \<open>
  Conventions of the embedding.
  \<^item> A C \<^verbatim>\<open>float\<close> is a \<^typ>\<open>real\<close> and a \<^verbatim>\<open>float complex\<close> a \<^typ>\<open>complex\<close>:
    finite values with exact arithmetic. Rounding, infinities and NaN are outside the
    model, and so is a division by zero (an infinity or NaN in C, \<open>0\<close> in HOL).
  \<^item> An \<^verbatim>\<open>unsigned int\<close> that counts or indexes array elements is a \<^typ>\<open>nat\<close>: every
    index the code computes is bounded by the length of an array that exists, so none
    wraps around.
  \<^item> The arrays of \<^verbatim>\<open>liquid_cplxpair\<close> live in a store of complex cells, addressed in
    units of one \<^verbatim>\<open>float complex\<close>; a pointer is the address of the first cell. The
    other functions pass their arrays as lists, which assumes that the arrays they are
    given do not overlap.
  \<^item> \<^verbatim>\<open>fprintf(stderr, ...)\<close> appends a line to a log; \<^verbatim>\<open>exit(1)\<close> after it is the
    result \<open>Inl (Exit_failure line)\<close>.
\<close>

subsection \<open>Store, log and failures\<close>

type_synonym cmem = "nat \<Rightarrow> complex"

datatype failure = Exit_failure string | Assertion_failed string

definition array :: "cmem \<Rightarrow> nat \<Rightarrow> nat \<Rightarrow> complex list" where
  "array m a n = map (\<lambda>i. m (a + i)) [0..<n]"

fun store_array :: "cmem \<Rightarrow> nat \<Rightarrow> complex list \<Rightarrow> cmem" where
  "store_array m a [] = m"
| "store_array m a (x # xs) = store_array (m(a := x)) (Suc a) xs"

subsection \<open>liquid\_cplxpair\<close>

text \<open>
  The locals of \<^verbatim>\<open>liquid_cplxpair\<close> that its loops update: the store, the array
  \<^verbatim>\<open>paired\<close>, the output index \<^verbatim>\<open>k\<close>, \<^verbatim>\<open>num_pairs\<close>, and the lines written to stderr.
\<close>

record pair_state =
  st_mem :: cmem
  st_paired :: "bool list"
  st_k :: nat
  st_num_pairs :: nat
  st_stderr :: "string list"

text \<open>The inner loop over \<open>j\<close> (lines 83-100); the \<^verbatim>\<open>break\<close> returns the state.\<close>

function pair_inner :: "nat \<Rightarrow> nat \<Rightarrow> real \<Rightarrow> nat \<Rightarrow> nat \<Rightarrow> nat \<Rightarrow> pair_state \<Rightarrow> pair_state" where
  "pair_inner z n tol p i j s =
     (if j < n then
        (if j = i \<or> st_paired s ! j \<or> \<bar>Im (st_mem s (z + j))\<bar> < tol
         then pair_inner z n tol p i (j + 1) s
         else if \<bar>Im (st_mem s (z + i)) + Im (st_mem s (z + j))\<bar> < tol \<and>
                 \<bar>Re (st_mem s (z + i)) - Re (st_mem s (z + j))\<bar> < tol
         then (let m1 = (st_mem s)(p + st_k s := st_mem s (z + i));
                   m2 = m1(p + (st_k s + 1) := m1 (z + j))
               in s\<lparr>st_mem := m2,
                    st_k := st_k s + 2,
                    st_paired := (st_paired s)[i := True, j := True],
                    st_num_pairs := st_num_pairs s + 1\<rparr>)
         else pair_inner z n tol p i (j + 1) s)
      else s)"
  by pat_completeness auto
termination
  by (relation "measure (\<lambda>(z, n, tol, p, i, j, s). n - j)") auto

text \<open>The outer loop over \<open>i\<close> (lines 77-101).\<close>

function pair_outer :: "nat \<Rightarrow> nat \<Rightarrow> real \<Rightarrow> nat \<Rightarrow> nat \<Rightarrow> pair_state \<Rightarrow> pair_state" where
  "pair_outer z n tol p i s =
     (if i < n then
        (if st_paired s ! i \<or> \<bar>Im (st_mem s (z + i))\<bar> < tol
         then pair_outer z n tol p (i + 1) s
         else pair_outer z n tol p (i + 1) (pair_inner z n tol p i 0 s))
      else s)"
  by pat_completeness auto
termination
  by (relation "measure (\<lambda>(z, n, tol, p, i, s). n - i)") auto

text \<open>The loop over the values left unpaired (lines 106-116).\<close>

definition cplxpair_warning :: string where
  "cplxpair_warning = ''warning, liquid_cplxpair(), complex numbers cannot be paired''"

function leftover_loop :: "nat \<Rightarrow> nat \<Rightarrow> real \<Rightarrow> nat \<Rightarrow> nat \<Rightarrow> pair_state \<Rightarrow> pair_state" where
  "leftover_loop z n tol p i s =
     (if i < n then
        (if st_paired s ! i
         then leftover_loop z n tol p (i + 1) s
         else if Im (st_mem s (z + i)) > tol
         then leftover_loop z n tol p (i + 1)
                (s\<lparr>st_stderr := st_stderr s @ [cplxpair_warning]\<rparr>)
         else leftover_loop z n tol p (i + 1)
                (s\<lparr>st_mem := (st_mem s)(p + st_k s := st_mem s (z + i)),
                   st_k := st_k s + 1,
                   st_paired := (st_paired s)[i := True]\<rparr>))
      else s)"
  by pat_completeness auto
termination
  by (relation "measure (\<lambda>(z, n, tol, p, i, s). n - i)") auto

subsection \<open>liquid\_cplxpair\_cleanup\<close>

text \<open>First loop (lines 144-148): exact conjugates, negative imaginary part first.\<close>

function cleanup_conj :: "nat \<Rightarrow> nat \<Rightarrow> nat \<Rightarrow> cmem \<Rightarrow> cmem" where
  "cleanup_conj p num_pairs i m =
     (if i < num_pairs then
        (let m1 = m(p + 2 * i := (if Im (m (p + 2 * i)) < 0 then m (p + 2 * i)
                                   else cnj (m (p + 2 * i))));
             m2 = m1(p + (2 * i + 1) := cnj (m1 (p + 2 * i)))
         in cleanup_conj p num_pairs (i + 1) m2)
      else m)"
  by pat_completeness auto
termination
  by (relation "measure (\<lambda>(p, num_pairs, i, m). num_pairs - i)") auto

text \<open>
  Second loop nest (lines 151-164). The comparison is the source's: the real part of
  \<^verbatim>\<open>_p[2*i]\<close> against the imaginary part of \<^verbatim>\<open>_p[2*j]\<close>.
\<close>

function sort_pairs_inner :: "nat \<Rightarrow> nat \<Rightarrow> nat \<Rightarrow> nat \<Rightarrow> cmem \<Rightarrow> cmem" where
  "sort_pairs_inner p num_pairs i j m =
     (if j < num_pairs then
        (if Re (m (p + 2 * i)) > Im (m (p + 2 * j))
         then (let tmp = m (p + 2 * i);
                   m1 = m(p + 2 * i := m (p + 2 * j));
                   m2 = m1(p + 2 * j := tmp);
                   tmp' = m2 (p + (2 * i + 1));
                   m3 = m2(p + (2 * i + 1) := m2 (p + (2 * j + 1)));
                   m4 = m3(p + (2 * j + 1) := tmp')
               in sort_pairs_inner p num_pairs i (j + 1) m4)
         else sort_pairs_inner p num_pairs i (j + 1) m)
      else m)"
  by pat_completeness auto
termination
  by (relation "measure (\<lambda>(p, num_pairs, i, j, m). num_pairs - j)") auto

function sort_pairs :: "nat \<Rightarrow> nat \<Rightarrow> nat \<Rightarrow> cmem \<Rightarrow> cmem" where
  "sort_pairs p num_pairs i m =
     (if i < num_pairs
      then sort_pairs p num_pairs (i + 1) (sort_pairs_inner p num_pairs i (i + 1) m)
      else m)"
  by pat_completeness auto
termination
  by (relation "measure (\<lambda>(p, num_pairs, i, m). num_pairs - i)") auto

text \<open>
  Third loop nest (lines 167-176), again with the source's comparison of a real part
  against an imaginary part.
\<close>

function sort_reals_inner :: "nat \<Rightarrow> nat \<Rightarrow> nat \<Rightarrow> nat \<Rightarrow> cmem \<Rightarrow> cmem" where
  "sort_reals_inner p n i j m =
     (if j < n then
        (if Re (m (p + i)) > Im (m (p + j))
         then (let tmp = m (p + i);
                   m1 = m(p + i := m (p + j));
                   m2 = m1(p + j := tmp)
               in sort_reals_inner p n i (j + 1) m2)
         else sort_reals_inner p n i (j + 1) m)
      else m)"
  by pat_completeness auto
termination
  by (relation "measure (\<lambda>(p, n, i, j, m). n - j)") auto

function sort_reals :: "nat \<Rightarrow> nat \<Rightarrow> nat \<Rightarrow> cmem \<Rightarrow> cmem" where
  "sort_reals p n i m =
     (if i < n
      then sort_reals p n (i + 1) (sort_reals_inner p n i (i + 1) m)
      else m)"
  by pat_completeness auto
termination
  by (relation "measure (\<lambda>(p, n, i, m). n - i)") auto

definition liquid_cplxpair_cleanup :: "cmem \<Rightarrow> nat \<Rightarrow> nat \<Rightarrow> nat \<Rightarrow> cmem" where
  "liquid_cplxpair_cleanup m p n num_pairs =
     sort_reals p n (2 * num_pairs)
       (sort_pairs p num_pairs 0
          (cleanup_conj p num_pairs 0 m))"

text \<open>
  The state of \<^verbatim>\<open>liquid_cplxpair\<close> when it calls the cleanup (line 119), and the
  function itself: the store it leaves and the lines it wrote to stderr.
\<close>

definition cplxpair_init :: "cmem \<Rightarrow> nat \<Rightarrow> pair_state" where
  "cplxpair_init m n =
     \<lparr>st_mem = m, st_paired = replicate n False, st_k = 0, st_num_pairs = 0, st_stderr = []\<rparr>"

definition cplxpair_paired :: "cmem \<Rightarrow> nat \<Rightarrow> nat \<Rightarrow> real \<Rightarrow> nat \<Rightarrow> pair_state" where
  "cplxpair_paired m z n tol p = pair_outer z n tol p 0 (cplxpair_init m n)"

definition cplxpair_collected :: "cmem \<Rightarrow> nat \<Rightarrow> nat \<Rightarrow> real \<Rightarrow> nat \<Rightarrow> pair_state" where
  "cplxpair_collected m z n tol p = leftover_loop z n tol p 0 (cplxpair_paired m z n tol p)"

definition liquid_cplxpair :: "cmem \<Rightarrow> nat \<Rightarrow> nat \<Rightarrow> real \<Rightarrow> nat \<Rightarrow> failure + cmem \<times> string list" where
  "liquid_cplxpair m z n tol p =
     (if tol < 0 then Inl (Exit_failure ''error: liquid_cplxpair(), tolerance must be positive'')
      else if \<not> st_k (cplxpair_paired m z n tol p) \<le> n then Inl (Assertion_failed ''k <= _n'')
      else (let s = cplxpair_collected m z n tol p
            in Inr (liquid_cplxpair_cleanup (st_mem s) p n (st_num_pairs s), st_stderr s)))"

text \<open>
  A call on two separate arrays: \<open>z\<close> holds the input, and \<open>p0\<close> the contents of the
  output array before the call (the cells the call does not write keep them).
\<close>

definition cplxpair_arrays ::
    "complex list \<Rightarrow> nat \<Rightarrow> real \<Rightarrow> complex list \<Rightarrow> failure + complex list \<times> string list" where
  "cplxpair_arrays z n tol p0 =
     (case liquid_cplxpair (store_array (store_array (\<lambda>_. 0) 0 z) (length z) p0)
             0 n tol (length z) of
        Inl e \<Rightarrow> Inl e
      | Inr (m', w) \<Rightarrow> Inr (array m' (length z) n, w))"

subsection \<open>Enumerations\<close>

text \<open>
  Modelled from the spec: the enumerations \<^verbatim>\<open>liquid_iirdes_filtertype\<close>,
  \<^verbatim>\<open>liquid_iirdes_bandtype\<close> and \<^verbatim>\<open>liquid_iirdes_format\<close> are declared in a header
  that is not among the sources; the spec (section 3) lists their members. A C enum
  variable can hold any integer, so each type has one more constructor for a value that
  is none of the members.
\<close>

datatype liquid_iirdes_filtertype =
    LIQUID_IIRDES_BUTTER
  | LIQUID_IIRDES_CHEBY1
  | LIQUID_IIRDES_CHEBY2
  | LIQUID_IIRDES_ELLIP
  | LIQUID_IIRDES_BESSEL
  | Filtertype_other int

datatype liquid_iirdes_bandtype =
    LIQUID_IIRDES_LOWPASS
  | LIQUID_IIRDES_HIGHPASS
  | LIQUID_IIRDES_BANDPASS
  | LIQUID_IIRDES_BANDSTOP
  | Bandtype_other int

datatype liquid_iirdes_format =
    LIQUID_IIRDES_SOS
  | LIQUID_IIRDES_TF
  | Format_other int

subsection \<open>iirdes\_freqprewarp\<close>

definition iirdes_freqprewarp :: "liquid_iirdes_bandtype \<Rightarrow> real \<Rightarrow> real \<Rightarrow> real" where
  "iirdes_freqprewarp btype fc f0 =
     (let m = (if btype = LIQUID_IIRDES_LOWPASS then tan (pi * fc)
               else if btype = LIQUID_IIRDES_HIGHPASS then - cos (pi * fc) / sin (pi * fc)
               else if btype = LIQUID_IIRDES_BANDPASS
                 then (cos (2 * pi * fc) - cos (2 * pi * f0)) / sin (2 * pi * fc)
               else if btype = LIQUID_IIRDES_BANDSTOP
                 then sin (2 * pi * fc) / (cos (2 * pi * fc) - cos (2 * pi * f0))
               else 0)
      in \<bar>m\<bar>)"

subsection \<open>bilinear\_zpkf\<close>

text \<open>
  The loop of lines 241-256; the state is the two output arrays and the gain \<open>G\<close>. The
  gain is updated from the cells of \<open>_pd\<close> and \<open>_zd\<close> that the iteration has just written.
  The quotients are those of exact complex arithmetic: the definition gives the formulas
  the code evaluates, not the binary32 values it returns, and nothing below depends on
  how a quotient is rounded.
\<close>

function bilinear_loop ::
    "complex list \<Rightarrow> nat \<Rightarrow> complex list \<Rightarrow> nat \<Rightarrow> real \<Rightarrow> nat \<Rightarrow>
     complex list \<times> complex list \<times> complex \<Rightarrow> complex list \<times> complex list \<times> complex" where
  "bilinear_loop za nza pa n m i (zd, pd, G) =
     (if i < n then
        (let zd' = (if i < nza
                    then (let zm = za ! i * complex_of_real m in zd[i := (1 + zm) / (1 - zm)])
                    else zd[i := - 1]);
             pm = pa ! i * complex_of_real m;
             pd' = pd[i := (1 + pm) / (1 - pm)];
             G' = G * ((1 - pd' ! i) / (1 - zd' ! i))
         in bilinear_loop za nza pa n m (i + 1) (zd', pd', G'))
      else (zd, pd, G))"
  by pat_completeness auto
termination
  by (relation "measure (\<lambda>(za, nza, pa, n, m, i, s). n - i)") auto

definition bilinear_zpkf ::
    "complex list \<Rightarrow> nat \<Rightarrow> complex list \<Rightarrow> nat \<Rightarrow> complex \<Rightarrow> real \<Rightarrow>
     complex list \<Rightarrow> complex list \<Rightarrow> complex list \<times> complex list \<times> complex" where
  "bilinear_zpkf za nza pa npa ka m zd pd = bilinear_loop za nza pa npa m 0 (zd, pd, ka)"

subsection \<open>iirdes\_dzpk2tff\<close>

text \<open>
  \<^verbatim>\<open>polycf_expandroots\<close> is not among the sources; it is the parameter \<open>expandroots\<close>,
  which returns the array \<open>q\<close> of \<open>n + 1\<close> coefficients.
\<close>

definition iirdes_dzpk2tff ::
    "(complex list \<Rightarrow> nat \<Rightarrow> complex list) \<Rightarrow> complex list \<Rightarrow> complex list \<Rightarrow> nat \<Rightarrow> complex \<Rightarrow>
     real list \<Rightarrow> real list \<Rightarrow> real list \<times> real list" where
  "iirdes_dzpk2tff expandroots zd pd n k b a =
     (let pdm = map (\<lambda>i. - pd ! i) [0..<n];
          q = expandroots pdm n;
          a' = fold (\<lambda>i a. a[i := Re (q ! (n - i))]) [0..<n + 1] a;
          zdm = map (\<lambda>i. - zd ! i) [0..<n];
          q' = expandroots zdm n;
          b' = fold (\<lambda>i b. b[i := Re (q' ! (n - i) * k)]) [0..<n + 1] b
      in (b', a'))"

subsection \<open>iirdes\_dzpk2sosf\<close>

text \<open>The loop of lines 367-383 over the \<open>L\<close> second-order sections.\<close>

function sos_loop ::
    "complex list \<Rightarrow> complex list \<Rightarrow> nat \<Rightarrow> nat \<Rightarrow> real list \<times> real list \<Rightarrow> real list \<times> real list" where
  "sos_loop zp pp L i (B, A) =
     (if i < L then
        (let p0 = - pp ! (2 * i + 0);
             p1 = - pp ! (2 * i + 1);
             z0 = - zp ! (2 * i + 0);
             z1 = - zp ! (2 * i + 1);
             A' = A[3 * i + 0 := 1, 3 * i + 1 := Re (p0 + p1), 3 * i + 2 := Re (p0 * p1)];
             B' = B[3 * i + 0 := 1, 3 * i + 1 := Re (z0 + z1), 3 * i + 2 := Re (z0 * z1)]
         in sos_loop zp pp L (i + 1) (B', A'))
      else (B, A))"
  by pat_completeness auto
termination
  by (relation "measure (\<lambda>(zp, pp, L, i, s). L - i)") auto

text \<open>
  The tolerance is the value of the binary32 literal \<^verbatim>\<open>1e-6f\<close> (line 332), which is
  \<open>8796093 / 2 ^ 43\<close>.
  \<open>zp0\<close> and \<open>pp0\<close> are the contents of the local arrays \<^verbatim>\<open>zp\<close> and \<^verbatim>\<open>pp\<close> before
  \<^verbatim>\<open>liquid_cplxpair\<close> fills them. The result has the two coefficient arrays and the
  lines written to stderr. The conversion of a \<^verbatim>\<open>float complex\<close> to a \<^verbatim>\<open>float\<close> (lines
  391 and 395) keeps the real part.
\<close>

definition iirdes_dzpk2sosf ::
    "complex list \<Rightarrow> complex list \<Rightarrow> nat \<Rightarrow> complex \<Rightarrow> real list \<Rightarrow> real list \<Rightarrow>
     complex list \<Rightarrow> complex list \<Rightarrow> failure + real list \<times> real list \<times> string list" where
  "iirdes_dzpk2sosf zd pd n kd B A zp0 pp0 =
     (let tol = 8796093 / 8796093022208 in
      case cplxpair_arrays (take n zd) n tol zp0 of
        Inl e \<Rightarrow> Inl e
      | Inr (zp, wz) \<Rightarrow>
          (case cplxpair_arrays (take n pd) n tol pp0 of
             Inl e \<Rightarrow> Inl e
           | Inr (pp, wp) \<Rightarrow>
               (let r = n mod 2;
                    L = (n - r) div 2;
                    (B1, A1) = sos_loop zp pp L 0 (B, A);
                    (B2, A2) =
                      (if r \<noteq> 0
                       then (B1[3 * L + 0 := 1, 3 * L + 1 := Re (- zp ! (n - 1)), 3 * L + 2 := 0],
                             A1[3 * L + 0 := 1, 3 * L + 1 := Re (- pp ! (n - 1)), 3 * L + 2 := 0])
                       else (B1, A1));
                    B3 = B2[0 := B2 ! 0 * Re kd];
                    B4 = B3[1 := B3 ! 1 * Re kd];
                    B5 = B4[2 := B4 ! 2 * Re kd]
                in Inr (B5, A2, wz @ wp))))"

subsection \<open>iirdes\_dzpk\_lp2bp\<close>

function lp2bp_loop ::
    "complex list \<Rightarrow> complex list \<Rightarrow> nat \<Rightarrow> real \<Rightarrow> nat \<Rightarrow>
     complex list \<times> complex list \<Rightarrow> complex list \<times> complex list" where
  "lp2bp_loop zd pd n c0 i (zdt, pdt) =
     (if i < n then
        (let t0 = 1 + zd ! i;
             zdt1 = zdt[2 * i + 0 :=
                      0.5 * (complex_of_real c0 * t0 + csqrt (complex_of_real (c0 * c0) * t0 * t0 - 4 * zd ! i))];
             zdt2 = zdt1[2 * i + 1 :=
                      0.5 * (complex_of_real c0 * t0 - csqrt (complex_of_real (c0 * c0) * t0 * t0 - 4 * zd ! i))];
             t1 = 1 + pd ! i;
             pdt1 = pdt[2 * i + 0 :=
                      0.5 * (complex_of_real c0 * t1 + csqrt (complex_of_real (c0 * c0) * t1 * t1 - 4 * pd ! i))];
             pdt2 = pdt1[2 * i + 1 :=
                      0.5 * (complex_of_real c0 * t1 - csqrt (complex_of_real (c0 * c0) * t1 * t1 - 4 * pd ! i))]
         in lp2bp_loop zd pd n c0 (i + 1) (zdt2, pdt2))
      else (zdt, pdt))"
  by pat_completeness auto
termination
  by (relation "measure (\<lambda>(zd, pd, n, c0, i, s). n - i)") auto

definition iirdes_dzpk_lp2bp ::
    "complex list \<Rightarrow> complex list \<Rightarrow> nat \<Rightarrow> real \<Rightarrow> complex list \<Rightarrow> complex list \<Rightarrow>
     complex list \<times> complex list" where
  "iirdes_dzpk_lp2bp zd pd n f0 zdt pdt =
     (let c0 = cos (2 * pi * f0) in lp2bp_loop zd pd n c0 0 (zdt, pdt))"

subsection \<open>iirdes\<close>

text \<open>
  The analog prototype generators are not among the sources; they are parameters. Each
  returns the contents of the arrays \<^verbatim>\<open>_za\<close> and \<^verbatim>\<open>_pa\<close> and the gain \<^verbatim>\<open>_ka\<close> after the call.
\<close>

record analog_prototypes =
  butter_azpkf :: "nat \<Rightarrow> complex list \<times> complex list \<times> complex"
  cheby1_azpkf :: "nat \<Rightarrow> real \<Rightarrow> complex list \<times> complex list \<times> complex"
  cheby2_azpkf :: "nat \<Rightarrow> real \<Rightarrow> complex list \<times> complex list \<times> complex"
  ellip_azpkf :: "nat \<Rightarrow> real \<Rightarrow> real \<Rightarrow> complex list \<times> complex list \<times> complex"
  bessel_azpkf :: "nat \<Rightarrow> complex list \<times> complex list \<times> complex"

text \<open>
  The contents of the local arrays of \<^verbatim>\<open>iirdes\<close> and \<^verbatim>\<open>iirdes_dzpk2sosf\<close> before they
  are written: \<^verbatim>\<open>zd\<close>, \<^verbatim>\<open>pd\<close>, \<^verbatim>\<open>zd1\<close> and \<^verbatim>\<open>pd1\<close> (\<open>2 * n\<close> cells each), \<^verbatim>\<open>zp\<close> and \<^verbatim>\<open>pp\<close>.
\<close>

record iirdes_locals =
  loc_zd :: "complex list"
  loc_pd :: "complex list"
  loc_zd1 :: "complex list"
  loc_pd1 :: "complex list"
  loc_zp :: "complex list"
  loc_pp :: "complex list"

text \<open>
  The switch of lines 496-536: the number of analog zeros, the nominal digital gain
  \<open>k0\<close>, and what the generator returned.
\<close>

definition iirdes_prototype ::
    "analog_prototypes \<Rightarrow> liquid_iirdes_filtertype \<Rightarrow> nat \<Rightarrow> real \<Rightarrow> real \<Rightarrow>
     failure + nat \<times> complex \<times> complex list \<times> complex list \<times> complex" where
  "iirdes_prototype g ftype n Ap As =
     (let r = n mod 2;
          L = (n - r) div 2
      in case ftype of
           LIQUID_IIRDES_BUTTER \<Rightarrow>
             (let (za, pa, ka) = butter_azpkf g n in Inr (0, 1, za, pa, ka))
         | LIQUID_IIRDES_CHEBY1 \<Rightarrow>
             (let epsilon = sqrt (10 powr (Ap / 10) - 1);
                  k0 = (if r \<noteq> 0 then 1 else 1 / sqrt (1 + epsilon * epsilon));
                  (za, pa, ka) = cheby1_azpkf g n epsilon
              in Inr (0, complex_of_real k0, za, pa, ka))
         | LIQUID_IIRDES_CHEBY2 \<Rightarrow>
             (let epsilon = 10 powr (- As / 20);
                  (za, pa, ka) = cheby2_azpkf g n epsilon
              in Inr (2 * L, 1, za, pa, ka))
         | LIQUID_IIRDES_ELLIP \<Rightarrow>
             (let Gp = 10 powr (- Ap / 20);
                  Gs = 10 powr (- As / 20);
                  ep = sqrt (1 / (Gp * Gp) - 1);
                  es = sqrt (1 / (Gs * Gs) - 1);
                  k0 = (if r \<noteq> 0 then 1 else 1 / sqrt (1 + ep * ep));
                  (za, pa, ka) = ellip_azpkf g n ep es
              in Inr (2 * L, complex_of_real k0, za, pa, ka))
         | LIQUID_IIRDES_BESSEL \<Rightarrow>
             (let (za, pa, ka) = bessel_azpkf g n in Inr (0, 1, za, pa, ka))
         | Filtertype_other v \<Rightarrow> Inl (Exit_failure ''error: iirdes(), unknown filter type''))"

text \<open>Lines 572-580: the zeros and poles are negated for high-pass and band-stop.\<close>

definition iirdes_negate ::
    "liquid_iirdes_bandtype \<Rightarrow> nat \<Rightarrow> complex list \<Rightarrow> complex list \<Rightarrow> complex list \<times> complex list" where
  "iirdes_negate btype n zd pd =
     (if btype = LIQUID_IIRDES_HIGHPASS \<or> btype = LIQUID_IIRDES_BANDSTOP
      then fold (\<lambda>i (zd, pd). (zd[i := - zd ! i], pd[i := - pd ! i])) [0..<n] (zd, pd)
      else (zd, pd))"

text \<open>
  Lines 582-605: the band transform for band-pass and band-stop, with the copy back into
  \<^verbatim>\<open>zd\<close> and \<^verbatim>\<open>pd\<close> (\<open>2 * n\<close> cells) and the new order.
\<close>

definition iirdes_bandtransform ::
    "liquid_iirdes_bandtype \<Rightarrow> nat \<Rightarrow> real \<Rightarrow> complex list \<Rightarrow> complex list \<Rightarrow> iirdes_locals \<Rightarrow>
     complex list \<times> complex list \<times> nat" where
  "iirdes_bandtransform btype n f0 zd pd loc =
     (if btype = LIQUID_IIRDES_BANDPASS \<or> btype = LIQUID_IIRDES_BANDSTOP
      then (let (zd1, pd1) = iirdes_dzpk_lp2bp zd pd n f0 (loc_zd1 loc) (loc_pd1 loc)
            in (take (2 * n) zd1 @ drop (2 * n) zd, take (2 * n) pd1 @ drop (2 * n) pd, 2 * n))
      else (zd, pd, n))"

text \<open>Lines 549-605: the digital zeros, poles and gain, and the order after the transform.\<close>

definition iirdes_digital ::
    "liquid_iirdes_bandtype \<Rightarrow> nat \<Rightarrow> real \<Rightarrow> real \<Rightarrow> nat \<Rightarrow> complex \<Rightarrow> complex list \<Rightarrow> complex list \<Rightarrow>
     iirdes_locals \<Rightarrow> complex list \<times> complex list \<times> nat \<times> complex" where
  "iirdes_digital btype n fc f0 nza k0 za pa loc =
     (let m = iirdes_freqprewarp btype fc f0;
          (zd, pd, kd) = bilinear_zpkf za nza pa n k0 m (loc_zd loc) (loc_pd loc);
          (zd', pd') = iirdes_negate btype n zd pd;
          (zd'', pd'', n') = iirdes_bandtransform btype n f0 zd' pd' loc
      in (zd'', pd'', n', kd))"

definition iirdes ::
    "analog_prototypes \<Rightarrow> (complex list \<Rightarrow> nat \<Rightarrow> complex list) \<Rightarrow>
     liquid_iirdes_filtertype \<Rightarrow> liquid_iirdes_bandtype \<Rightarrow> liquid_iirdes_format \<Rightarrow>
     nat \<Rightarrow> real \<Rightarrow> real \<Rightarrow> real \<Rightarrow> real \<Rightarrow> real list \<Rightarrow> real list \<Rightarrow> iirdes_locals \<Rightarrow>
     failure + real list \<times> real list \<times> string list" where
  "iirdes g expandroots ftype btype format n fc f0 Ap As B A loc =
     (if fc \<le> 0 \<or> fc \<ge> 0.5
        then Inl (Exit_failure ''error: iirdes(), cutoff frequency out of range'')
      else if f0 < 0 \<or> f0 > 0.5
        then Inl (Exit_failure ''error: iirdes(), center frequency out of range'')
      else if Ap \<le> 0
        then Inl (Exit_failure ''error: iirdes(), pass-band ripple out of range'')
      else if As \<le> 0
        then Inl (Exit_failure ''error: iirdes(), stop-band ripple out of range'')
      else if n = 0
        then Inl (Exit_failure ''error: iirdes(), filter order must be > 0'')
      else
        (case iirdes_prototype g ftype n Ap As of
           Inl e \<Rightarrow> Inl e
         | Inr (nza, k0, za, pa, ka) \<Rightarrow>
             (let (zd, pd, n', kd) = iirdes_digital btype n fc f0 nza k0 za pa loc
              in if format = LIQUID_IIRDES_TF
                 then (let (B', A') = iirdes_dzpk2tff expandroots zd pd n' kd B A
                       in Inr (B', A', []))
                 else iirdes_dzpk2sosf zd pd n' kd B A (loc_zp loc) (loc_pp loc))))"

section \<open>Definitions used in the proofs\<close>

text \<open>
  None of these is part of the program: they name the loop bodies, the invariants of the
  loops and the values the loops compute, for the lemmas below.
\<close>

definition frame :: "nat \<Rightarrow> nat \<Rightarrow> cmem \<Rightarrow> cmem \<Rightarrow> bool" where
  "frame lo hi m m' \<longleftrightarrow> (\<forall>a. a < lo \<or> hi \<le> a \<longrightarrow> m' a = m a)"

definition pair_emit :: "nat \<Rightarrow> nat \<Rightarrow> nat \<Rightarrow> nat \<Rightarrow> pair_state \<Rightarrow> pair_state" where
  "pair_emit z p i j s =
     (let m1 = (st_mem s)(p + st_k s := st_mem s (z + i));
          m2 = m1(p + (st_k s + 1) := m1 (z + j))
      in s\<lparr>st_mem := m2,
           st_k := st_k s + 2,
           st_paired := (st_paired s)[i := True, j := True],
           st_num_pairs := st_num_pairs s + 1\<rparr>)"

definition pair_cond :: "nat \<Rightarrow> nat \<Rightarrow> real \<Rightarrow> nat \<Rightarrow> nat \<Rightarrow> pair_state \<Rightarrow> bool" where
  "pair_cond z n tol i j s \<longleftrightarrow>
     i < n \<and> j < n \<and> j \<noteq> i \<and> \<not> st_paired s ! i \<and> \<not> st_paired s ! j \<and>
     \<not> \<bar>Im (st_mem s (z + i))\<bar> < tol \<and> \<not> \<bar>Im (st_mem s (z + j))\<bar> < tol \<and>
     \<bar>Im (st_mem s (z + i)) + Im (st_mem s (z + j))\<bar> < tol \<and>
     \<bar>Re (st_mem s (z + i)) - Re (st_mem s (z + j))\<bar> < tol"

definition pinv :: "nat \<Rightarrow> pair_state \<Rightarrow> bool" where
  "pinv n s \<longleftrightarrow> length (st_paired s) = n \<and> st_k s = card {i. i < n \<and> st_paired s ! i}"

definition leftover_emit :: "nat \<Rightarrow> nat \<Rightarrow> nat \<Rightarrow> pair_state \<Rightarrow> pair_state" where
  "leftover_emit z p i s =
     s\<lparr>st_mem := (st_mem s)(p + st_k s := st_mem s (z + i)),
       st_k := st_k s + 1,
       st_paired := (st_paired s)[i := True]\<rparr>"

definition leftover_warn :: "pair_state \<Rightarrow> pair_state" where
  "leftover_warn s = s\<lparr>st_stderr := st_stderr s @ [cplxpair_warning]\<rparr>"

definition perm_on :: "nat \<Rightarrow> nat \<Rightarrow> cmem \<Rightarrow> cmem \<Rightarrow> bool" where
  "perm_on p n m m' \<longleftrightarrow> frame p (p + n) m m' \<and> mset (array m' p n) = mset (array m p n)"

definition swap_cells :: "nat \<Rightarrow> nat \<Rightarrow> cmem \<Rightarrow> cmem" where
  "swap_cells a b m = m(a := m b, b := m a)"

definition conj_pairs :: "nat \<Rightarrow> nat \<Rightarrow> nat \<Rightarrow> cmem \<Rightarrow> bool" where
  "conj_pairs p lo hi m \<longleftrightarrow> (\<forall>q. lo \<le> q \<and> q < hi \<longrightarrow> m (p + (2 * q + 1)) = cnj (m (p + 2 * q)))"

definition pass1_inv :: "cmem \<Rightarrow> nat \<Rightarrow> nat \<Rightarrow> pair_state \<Rightarrow> bool" where
  "pass1_inv m0 n p s \<longleftrightarrow>
     length (st_paired s) = n \<and> st_k s = card {i. i < n \<and> st_paired s ! i} \<and>
     st_k s = 2 * st_num_pairs s \<and> frame p (p + st_k s) m0 (st_mem s) \<and> st_stderr s = []"

definition pass1_content :: "(nat \<Rightarrow> complex) \<Rightarrow> nat \<Rightarrow> nat \<Rightarrow> nat \<Rightarrow> pair_state \<Rightarrow> bool" where
  "pass1_content Z z n p s \<longleftrightarrow>
     (\<forall>j<n. st_mem s (z + j) = Z j) \<and>
     mset (array (st_mem s) p (st_k s)) = image_mset Z (mset_set {i. i < n \<and> st_paired s ! i})"

text \<open>
  \<open>exact_matches Z n tol\<close>: any two of the \<open>n\<close> values \<open>Z 0, \<dots>, Z (n - 1)\<close> that the pairing
  pass can pair (imaginary magnitudes not below \<open>tol\<close>, imaginary parts opposite and real
  parts equal within \<open>tol\<close>) are exact conjugates of each other.
\<close>

definition exact_matches :: "(nat \<Rightarrow> complex) \<Rightarrow> nat \<Rightarrow> real \<Rightarrow> bool" where
  "exact_matches Z n tol \<longleftrightarrow>
     (\<forall>i\<in>{0..<n}. \<forall>j\<in>{0..<n}. j \<noteq> i \<and> \<not> \<bar>Im (Z i)\<bar> < tol \<and> \<not> \<bar>Im (Z j)\<bar> < tol \<and>
        \<bar>Im (Z i) + Im (Z j)\<bar> < tol \<and> \<bar>Re (Z i) - Re (Z j)\<bar> < tol \<longrightarrow> Z j = cnj (Z i))"

definition bilinear_zero :: "complex list \<Rightarrow> nat \<Rightarrow> real \<Rightarrow> nat \<Rightarrow> complex" where
  "bilinear_zero za nza m i =
     (if i < nza then (1 + za ! i * complex_of_real m) / (1 - za ! i * complex_of_real m) else - 1)"

definition bilinear_pole :: "complex list \<Rightarrow> real \<Rightarrow> nat \<Rightarrow> complex" where
  "bilinear_pole pa m i = (1 + pa ! i * complex_of_real m) / (1 - pa ! i * complex_of_real m)"


definition bp_root :: "real \<Rightarrow> complex list \<Rightarrow> nat \<Rightarrow> complex" where
  "bp_root c0 xs j =
     (if j mod 2 = 0
      then 0.5 * (complex_of_real c0 * (1 + xs ! (j div 2)) +
                  csqrt (complex_of_real (c0 * c0) * (1 + xs ! (j div 2)) * (1 + xs ! (j div 2)) - 4 * xs ! (j div 2)))
      else 0.5 * (complex_of_real c0 * (1 + xs ! (j div 2)) -
                  csqrt (complex_of_real (c0 * c0) * (1 + xs ! (j div 2)) * (1 + xs ! (j div 2)) - 4 * xs ! (j div 2))))"

section \<open>Properties\<close>

subsection \<open>Ordering after the cleanup\<close>

text \<open>
  C2. After the cleanup the pairs should be in ascending order of their real parts and
  the trailing real values in ascending order. The two sorting loops compare a real part
  with an imaginary part (lines 153 and 169), so the input \<open>[3, 5]\<close> comes out as
  \<open>[5, 3]\<close>, and two conjugate pairs given in ascending order come out in descending
  order; no warning is written in either call.
\<close>

theorem cplxpair_cleanup_order_evaluated:
  "cplxpair_arrays [3, 5] 2 (1 / 1000000) [0, 0] = Inr ([5, 3], []) \<and>
   cplxpair_arrays [Complex 1 (- 1), Complex 1 1, Complex 2 (- 1), Complex 2 1] 4
       (1 / 1000000) [0, 0, 0, 0]
     = Inr ([Complex 2 (- 1), Complex 2 1, Complex 1 (- 1), Complex 1 1], [])"
  by code_simp

subsection \<open>The cells that liquid\_cplxpair writes\<close>

declare pair_inner.simps [simp del] pair_outer.simps [simp del] leftover_loop.simps [simp del]
  cleanup_conj.simps [simp del] sort_pairs_inner.simps [simp del] sort_pairs.simps [simp del]
  sort_reals_inner.simps [simp del] sort_reals.simps [simp del]
  bilinear_loop.simps [simp del] sos_loop.simps [simp del] lp2bp_loop.simps [simp del]

lemma frame_refl: "frame lo hi m m"
  by (simp add: frame_def)

lemma frame_trans:
  "frame lo hi m m' \<Longrightarrow> frame lo' hi' m' m'' \<Longrightarrow> lo'' \<le> lo \<Longrightarrow> lo'' \<le> lo' \<Longrightarrow> hi \<le> hi'' \<Longrightarrow> hi' \<le> hi''
   \<Longrightarrow> frame lo'' hi'' m m''"
  by (auto simp: frame_def)

lemma pset_update:
  "length xs = n \<Longrightarrow> i < n \<Longrightarrow> {j. j < n \<and> xs[i := True] ! j} = insert i {j. j < n \<and> xs ! j}"
  by (auto simp: nth_list_update)

lemma card_pset_update:
  assumes "length xs = n" "i < n" "\<not> xs ! i"
  shows "card {j. j < n \<and> xs[i := True] ! j} = Suc (card {j. j < n \<and> xs ! j})"
proof -
  have "finite {j. j < n \<and> xs ! j}" by simp
  moreover have "i \<notin> {j. j < n \<and> xs ! j}" using assms by simp
  ultimately show ?thesis using assms by (simp add: pset_update)
qed

lemma card_pset_le: "card {j. j < n \<and> xs ! j} \<le> n"
proof -
  have "card {j. j < n \<and> xs ! j} \<le> card {..<n}" by (rule card_mono) auto
  then show ?thesis by simp
qed

lemma card_pset_less:
  assumes "length xs = n" "i < n" "\<not> xs ! i"
  shows "card {j. j < n \<and> xs ! j} < n"
proof -
  have "Suc (card {j. j < n \<and> xs ! j}) = card {j. j < n \<and> xs[i := True] ! j}"
    using assms by (simp add: card_pset_update)
  also have "\<dots> \<le> n" by (rule card_pset_le)
  finally show ?thesis by simp
qed

lemma card_pset_less2:
  assumes "length xs = n" "i < n" "\<not> xs ! i" "j < n" "\<not> xs ! j" "i \<noteq> j"
  shows "Suc (card {j. j < n \<and> xs ! j}) < n"
proof -
  have "card {l. l < n \<and> xs[i := True] ! l} < n"
    using assms by (intro card_pset_less[where i = j]) (auto simp: nth_list_update)
  then show ?thesis using assms by (simp add: card_pset_update)
qed

lemma card_pset_update2:
  assumes "length xs = n" "i < n" "\<not> xs ! i" "j < n" "\<not> xs ! j" "i \<noteq> j"
  shows "card {l. l < n \<and> xs[i := True, j := True] ! l} = Suc (Suc (card {l. l < n \<and> xs ! l}))"
proof -
  have "\<not> xs[i := True] ! j" using assms by (simp add: nth_list_update)
  then have "card {l. l < n \<and> xs[i := True, j := True] ! l}
      = Suc (card {l. l < n \<and> xs[i := True] ! l})"
    using assms by (intro card_pset_update) simp_all
  also have "card {l. l < n \<and> xs[i := True] ! l} = Suc (card {l. l < n \<and> xs ! l})"
    using assms by (intro card_pset_update) simp_all
  finally show ?thesis by simp
qed

lemma pair_inner_cases:
  "i < n \<Longrightarrow> \<not> st_paired s ! i \<Longrightarrow> \<not> \<bar>Im (st_mem s (z + i))\<bar> < tol \<Longrightarrow>
   pair_inner z n tol p i j s = s \<or>
   (\<exists>j'. pair_cond z n tol i j' s \<and> pair_inner z n tol p i j s = pair_emit z p i j' s)"
proof (induction z n tol p i j s rule: pair_inner.induct)
  case (1 z n tol p i j s)
  show ?case
  proof (cases "j < n")
    case False
    then show ?thesis by (simp add: pair_inner.simps[of z n tol p i j s])
  next
    case jn: True
    show ?thesis
    proof (cases "j = i \<or> st_paired s ! j \<or> \<bar>Im (st_mem s (z + j))\<bar> < tol")
      case True
      then have "pair_inner z n tol p i j s = pair_inner z n tol p i (j + 1) s"
        using jn by (simp add: pair_inner.simps[of z n tol p i j s])
      then show ?thesis using jn True "1.IH"(1) "1.prems" by simp
    next
      case skip: False
      show ?thesis
      proof (cases "\<bar>Im (st_mem s (z + i)) + Im (st_mem s (z + j))\<bar> < tol \<and>
                 \<bar>Re (st_mem s (z + i)) - Re (st_mem s (z + j))\<bar> < tol")
        case False
        then have "pair_inner z n tol p i j s = pair_inner z n tol p i (j + 1) s"
          using jn skip by (subst pair_inner.simps) auto
        then show ?thesis using jn skip False "1.IH"(2) "1.prems" by simp
      next
        case True
        then have "pair_inner z n tol p i j s = pair_emit z p i j s"
          using jn skip by (subst pair_inner.simps) (simp add: pair_emit_def)
        moreover have "pair_cond z n tol i j s"
          using True jn skip "1.prems" by (simp add: pair_cond_def)
        ultimately show ?thesis by blast
      qed
    qed
  qed
qed

lemma pair_outer_invariant:
  assumes "P s"
    and step: "\<And>s i j. P s \<Longrightarrow> pair_cond z n tol i j s \<Longrightarrow> P (pair_emit z p i j s)"
  shows "P (pair_outer z n tol p i s)"
  using assms
proof (induction z n tol p i s rule: pair_outer.induct)
  case (1 z n tol p i s)
  note step' = "1.prems"(2)
  show ?case
  proof (cases "i < n")
    case False
    then show ?thesis using "1.prems" by (simp add: pair_outer.simps[of z n tol p i s])
  next
    case inn: True
    show ?thesis
    proof (cases "st_paired s ! i \<or> \<bar>Im (st_mem s (z + i))\<bar> < tol")
      case True
      then have "pair_outer z n tol p i s = pair_outer z n tol p (i + 1) s"
        using inn by (simp add: pair_outer.simps[of z n tol p i s])
      then show ?thesis using "1.IH"(1)[OF inn True "1.prems"(1) step'] by simp
    next
      case False
      have eq: "pair_outer z n tol p i s = pair_outer z n tol p (i + 1) (pair_inner z n tol p i 0 s)"
        using inn False by (simp add: pair_outer.simps[of z n tol p i s])
      have "P (pair_inner z n tol p i 0 s)"
      proof -
        from pair_inner_cases[of i n s z tol p 0] inn False
        consider "pair_inner z n tol p i 0 s = s"
          | j' where "pair_cond z n tol i j' s" "pair_inner z n tol p i 0 s = pair_emit z p i j' s"
          by blast
        then show ?thesis
        proof cases
          case 1
          then show ?thesis using "1.prems"(1) by simp
        next
          case 2
          then show ?thesis using step'[OF "1.prems"(1) 2(1)] by simp
        qed
      qed
      then show ?thesis unfolding eq using "1.IH"(2)[OF inn False _ step'] by simp
    qed
  qed
qed

lemma pass1_inv_emit:
  assumes "pass1_inv m0 n p s" "pair_cond z n tol i j s"
  shows "pass1_inv m0 n p (pair_emit z p i j s)"
proof -
  have len: "length (st_paired s) = n" and k: "st_k s = card {i. i < n \<and> st_paired s ! i}"
    and np: "st_k s = 2 * st_num_pairs s" and fr: "frame p (p + st_k s) m0 (st_mem s)"
    and err: "st_stderr s = []"
    using assms(1) unfolding pass1_inv_def by blast+
  have c: "i < n" "j < n" "j \<noteq> i" "\<not> st_paired s ! i" "\<not> st_paired s ! j"
    using assms(2) by (simp_all add: pair_cond_def)
  have c1: "card {l. l < n \<and> (st_paired s)[i := True, j := True] ! l} = Suc (Suc (card {l. l < n \<and> st_paired s ! l}))"
    using len c by (intro card_pset_update2) auto
  show ?thesis
    using len k np fr err c1
    by (simp add: pass1_inv_def pair_emit_def Let_def frame_def)
qed

lemma pass1_inv_init: "pass1_inv m n p (cplxpair_init m n)"
  by (simp add: pass1_inv_def cplxpair_init_def frame_refl)

lemma pass1_inv_paired: "pass1_inv m n p (cplxpair_paired m z n tol p)"
  unfolding cplxpair_paired_def
  by (rule pair_outer_invariant[where P = "pass1_inv m n p"]) (auto intro: pass1_inv_init pass1_inv_emit)

lemma pass1_k_le: "pass1_inv m0 n p s \<Longrightarrow> st_k s \<le> n"
  by (simp add: pass1_inv_def card_pset_le)

lemma length_array [simp]: "length (array m a n) = n"
  by (simp add: array_def)

lemma nth_array: "i < n \<Longrightarrow> array m a n ! i = m (a + i)"
  by (simp add: array_def)

lemma array_Suc: "array m a (Suc n) = array m a n @ [m (a + n)]"
  by (simp add: array_def)

lemma array_cong: "(\<And>i. i < n \<Longrightarrow> m' (a + i) = m (a + i)) \<Longrightarrow> array m' a n = array m a n"
  by (simp add: array_def)

lemma array_frame:
  "frame lo hi m m' \<Longrightarrow> a + n \<le> lo \<or> hi \<le> a \<Longrightarrow> array m' a n = array m a n"
  by (rule array_cong) (auto simp: frame_def)

lemma array_upd: "array (m(a + i := v)) a n = (array m a n)[i := v]"
  by (rule nth_equalityI) (auto simp: nth_list_update nth_array)

lemma leftover_steps:
  "\<not> i < n \<Longrightarrow> leftover_loop z n tol p i s = s"
  "i < n \<Longrightarrow> st_paired s ! i \<Longrightarrow> leftover_loop z n tol p i s = leftover_loop z n tol p (i + 1) s"
  "i < n \<Longrightarrow> \<not> st_paired s ! i \<Longrightarrow> Im (st_mem s (z + i)) > tol \<Longrightarrow>
     leftover_loop z n tol p i s = leftover_loop z n tol p (i + 1) (leftover_warn s)"
  "i < n \<Longrightarrow> \<not> st_paired s ! i \<Longrightarrow> \<not> Im (st_mem s (z + i)) > tol \<Longrightarrow>
     leftover_loop z n tol p i s = leftover_loop z n tol p (i + 1) (leftover_emit z p i s)"
  by (subst leftover_loop.simps, simp add: leftover_warn_def leftover_emit_def)+

lemma pinv_emit:
  "pinv n s \<Longrightarrow> i < n \<Longrightarrow> \<not> st_paired s ! i \<Longrightarrow> pinv n (leftover_emit z p i s)"
  by (simp add: pinv_def leftover_emit_def card_pset_update)

lemma pinv_warn: "pinv n s \<Longrightarrow> pinv n (leftover_warn s)"
  by (simp add: pinv_def leftover_warn_def)

lemma pinv_k_less: "pinv n s \<Longrightarrow> i < n \<Longrightarrow> \<not> st_paired s ! i \<Longrightarrow> st_k s < n"
  by (simp add: pinv_def card_pset_less)

lemma pinv_k_le: "pinv n s \<Longrightarrow> st_k s \<le> n"
  by (simp add: pinv_def card_pset_le)

lemma leftover_inv:
  "pinv n s \<Longrightarrow>
   pinv n (leftover_loop z n tol p i s) \<and>
   st_num_pairs (leftover_loop z n tol p i s) = st_num_pairs s \<and>
   st_k s \<le> st_k (leftover_loop z n tol p i s) \<and>
   frame (p + st_k s) (p + st_k (leftover_loop z n tol p i s)) (st_mem s)
     (st_mem (leftover_loop z n tol p i s))"
proof (induction z n tol p i s rule: leftover_loop.induct)
  case (1 z n tol p i s)
  show ?case
  proof (cases "i < n")
    case False
    then show ?thesis using "1.prems" by (simp add: leftover_steps frame_refl)
  next
    case inn: True
    show ?thesis
    proof (cases "st_paired s ! i")
      case True
      then show ?thesis using "1.IH"(1)[OF inn True "1.prems"] inn by (simp add: leftover_steps)
    next
      case unp: False
      show ?thesis
      proof (cases "Im (st_mem s (z + i)) > tol")
        case True
        have "pinv n (leftover_warn s)" using "1.prems" by (rule pinv_warn)
        from "1.IH"(2)[OF inn unp True this[unfolded leftover_warn_def], folded leftover_warn_def]
        have ih: "pinv n (leftover_loop z n tol p (i + 1) (leftover_warn s))"
          "st_num_pairs (leftover_loop z n tol p (i + 1) (leftover_warn s)) = st_num_pairs (leftover_warn s)"
          "st_k (leftover_warn s) \<le> st_k (leftover_loop z n tol p (i + 1) (leftover_warn s))"
          "frame (p + st_k (leftover_warn s)) (p + st_k (leftover_loop z n tol p (i + 1) (leftover_warn s)))
             (st_mem (leftover_warn s)) (st_mem (leftover_loop z n tol p (i + 1) (leftover_warn s)))"
          by blast+
        have w: "st_k (leftover_warn s) = st_k s" "st_mem (leftover_warn s) = st_mem s"
          "st_num_pairs (leftover_warn s) = st_num_pairs s"
          by (simp_all add: leftover_warn_def)
        have eq: "leftover_loop z n tol p i s = leftover_loop z n tol p (i + 1) (leftover_warn s)"
          using inn unp True by (simp add: leftover_steps)
        show ?thesis unfolding eq using ih unfolding w by simp
      next
        case False
        let ?s1 = "leftover_emit z p i s"
        let ?s' = "leftover_loop z n tol p (i + 1) ?s1"
        have p1: "pinv n ?s1" using "1.prems" inn unp by (rule pinv_emit)
        from "1.IH"(3)[OF inn unp False this[unfolded leftover_emit_def], folded leftover_emit_def]
        have ih: "pinv n ?s'" "st_num_pairs ?s' = st_num_pairs ?s1" "st_k ?s1 \<le> st_k ?s'"
          "frame (p + st_k ?s1) (p + st_k ?s') (st_mem ?s1) (st_mem ?s')"
          by blast+
        have k1: "st_k ?s1 = Suc (st_k s)" by (simp add: leftover_emit_def)
        have f1: "frame (p + st_k s) (p + st_k ?s1) (st_mem s) (st_mem ?s1)"
          by (simp add: leftover_emit_def frame_def)
        have eq: "leftover_loop z n tol p i s = ?s'"
          using inn unp False by (simp add: leftover_steps)
        have "frame (p + st_k s) (p + st_k ?s') (st_mem s) (st_mem ?s')"
          using frame_trans[OF f1 ih(4), of "p + st_k s" "p + st_k ?s'"] ih(3) k1 by simp
        moreover have "st_num_pairs ?s1 = st_num_pairs s" by (simp add: leftover_emit_def)
        ultimately show ?thesis unfolding eq using ih k1 by simp
      qed
    qed
  qed
qed

lemma perm_on_refl: "perm_on p n m m"
  by (simp add: perm_on_def frame_refl)

lemma perm_on_trans: "perm_on p n m m' \<Longrightarrow> perm_on p n m' m'' \<Longrightarrow> perm_on p n m m''"
  by (auto simp: perm_on_def frame_def)

lemma perm_on_swap:
  assumes "a < n" "b < n"
  shows "perm_on p n m (swap_cells (p + a) (p + b) m)"
proof -
  let ?xs = "array m p n"
  have "array (swap_cells (p + a) (p + b) m) p n = ?xs[a := m (p + b), b := m (p + a)]"
    by (simp add: swap_cells_def array_upd)
  also have "\<dots> = ?xs[a := ?xs ! b, b := ?xs ! a]"
    using assms by (simp add: nth_array)
  finally have "mset (array (swap_cells (p + a) (p + b) m) p n) = mset ?xs"
    using assms mset_swap[of b ?xs a] by simp
  moreover have "frame p (p + n) m (swap_cells (p + a) (p + b) m)"
    using assms by (simp add: frame_def swap_cells_def)
  ultimately show ?thesis by (simp add: perm_on_def)
qed

lemma sort_reals_inner_stop: "\<not> j < n \<Longrightarrow> sort_reals_inner p n i j m = m"
  by (subst sort_reals_inner.simps) simp

lemma sort_reals_inner_step:
  "j < n \<Longrightarrow> sort_reals_inner p n i j m =
     sort_reals_inner p n i (Suc j)
       (if Re (m (p + i)) > Im (m (p + j)) then swap_cells (p + i) (p + j) m else m)"
  by (subst sort_reals_inner.simps) (simp add: swap_cells_def Let_def)

lemma sort_reals_stop: "\<not> i < n \<Longrightarrow> sort_reals p n i m = m"
  by (subst sort_reals.simps) simp

lemma sort_reals_step:
  "i < n \<Longrightarrow> sort_reals p n i m = sort_reals p n (Suc i) (sort_reals_inner p n i (Suc i) m)"
  by (subst sort_reals.simps) simp

lemma sort_pairs_inner_stop: "\<not> j < num_pairs \<Longrightarrow> sort_pairs_inner p num_pairs i j m = m"
  by (subst sort_pairs_inner.simps) simp

lemma sort_pairs_inner_step:
  "j < num_pairs \<Longrightarrow> sort_pairs_inner p num_pairs i j m =
     sort_pairs_inner p num_pairs i (Suc j)
       (if Re (m (p + 2 * i)) > Im (m (p + 2 * j))
        then swap_cells (p + (2 * i + 1)) (p + (2 * j + 1)) (swap_cells (p + 2 * i) (p + 2 * j) m)
        else m)"
  by (subst sort_pairs_inner.simps) (simp add: swap_cells_def Let_def)

lemma sort_pairs_stop: "\<not> i < num_pairs \<Longrightarrow> sort_pairs p num_pairs i m = m"
  by (subst sort_pairs.simps) simp

lemma sort_pairs_step:
  "i < num_pairs \<Longrightarrow> sort_pairs p num_pairs i m =
     sort_pairs p num_pairs (Suc i) (sort_pairs_inner p num_pairs i (Suc i) m)"
  by (subst sort_pairs.simps) simp

lemma cleanup_conj_stop: "\<not> i < num_pairs \<Longrightarrow> cleanup_conj p num_pairs i m = m"
  by (subst cleanup_conj.simps) simp

lemma cleanup_conj_step:
  "i < num_pairs \<Longrightarrow> cleanup_conj p num_pairs i m =
     cleanup_conj p num_pairs (Suc i)
       (m(p + 2 * i := (if Im (m (p + 2 * i)) < 0 then m (p + 2 * i) else cnj (m (p + 2 * i))),
          p + (2 * i + 1) := cnj (if Im (m (p + 2 * i)) < 0 then m (p + 2 * i) else cnj (m (p + 2 * i)))))"
  by (subst cleanup_conj.simps) (simp add: Let_def)

lemma sort_reals_inner_perm:
  "i < n \<Longrightarrow> perm_on p n m (sort_reals_inner p n i j m)"
proof (induction "n - j" arbitrary: j m)
  case 0
  then show ?case by (simp add: sort_reals_inner_stop perm_on_refl)
next
  case (Suc d)
  then have jn: "j < n" and d: "d = n - Suc j" by simp_all
  let ?m' = "if Re (m (p + i)) > Im (m (p + j)) then swap_cells (p + i) (p + j) m else m"
  have "perm_on p n m ?m'"
    using perm_on_swap[OF Suc.prems jn, of p m] by (simp add: perm_on_refl)
  moreover have "perm_on p n ?m' (sort_reals_inner p n i (Suc j) ?m')"
    using Suc.hyps(1)[OF d Suc.prems] .
  ultimately show ?case
    unfolding sort_reals_inner_step[OF jn] by (rule perm_on_trans)
qed

lemma sort_reals_perm: "perm_on p n m (sort_reals p n i m)"
proof (induction "n - i" arbitrary: i m)
  case 0
  then show ?case by (simp add: sort_reals_stop perm_on_refl)
next
  case (Suc d)
  then have inn: "i < n" and d: "d = n - Suc i" by simp_all
  show ?case
    unfolding sort_reals_step[OF inn]
    using sort_reals_inner_perm[OF inn] Suc.hyps(1)[OF d] by (rule perm_on_trans)
qed

lemma sort_pairs_inner_perm:
  "i < num_pairs \<Longrightarrow> 2 * num_pairs \<le> n \<Longrightarrow> perm_on p n m (sort_pairs_inner p num_pairs i j m)"
proof (induction "num_pairs - j" arbitrary: j m)
  case 0
  then show ?case by (simp add: sort_pairs_inner_stop perm_on_refl)
next
  case (Suc d)
  then have jn: "j < num_pairs" and d: "d = num_pairs - Suc j" by simp_all
  let ?m2 = "swap_cells (p + 2 * i) (p + 2 * j) m"
  let ?m4 = "swap_cells (p + (2 * i + 1)) (p + (2 * j + 1)) ?m2"
  let ?m' = "if Re (m (p + 2 * i)) > Im (m (p + 2 * j)) then ?m4 else m"
  have "perm_on p n m ?m2"
    using Suc.prems jn by (intro perm_on_swap) simp_all
  moreover have "perm_on p n ?m2 ?m4"
    using Suc.prems jn by (intro perm_on_swap) simp_all
  ultimately have "perm_on p n m ?m4" by (rule perm_on_trans)
  then have "perm_on p n m ?m'" by (simp add: perm_on_refl)
  moreover have "perm_on p n ?m' (sort_pairs_inner p num_pairs i (Suc j) ?m')"
    using Suc.hyps(1)[OF d Suc.prems] .
  ultimately show ?case
    unfolding sort_pairs_inner_step[OF jn] by (rule perm_on_trans)
qed

lemma sort_pairs_perm: "2 * num_pairs \<le> n \<Longrightarrow> perm_on p n m (sort_pairs p num_pairs i m)"
proof (induction "num_pairs - i" arbitrary: i m)
  case 0
  then show ?case by (simp add: sort_pairs_stop perm_on_refl)
next
  case (Suc d)
  then have inn: "i < num_pairs" and d: "d = num_pairs - Suc i" by simp_all
  show ?case
    unfolding sort_pairs_step[OF inn]
    using sort_pairs_inner_perm[OF inn Suc.prems] Suc.hyps(1)[OF d Suc.prems] by (rule perm_on_trans)
qed

lemma cleanup_conj_frame:
  "2 * num_pairs \<le> n \<Longrightarrow> frame p (p + n) m (cleanup_conj p num_pairs i m)"
proof (induction "num_pairs - i" arbitrary: i m)
  case 0
  then show ?case by (simp add: cleanup_conj_stop frame_refl)
next
  case (Suc d)
  then have inn: "i < num_pairs" and d: "d = num_pairs - Suc i" by simp_all
  let ?c = "if Im (m (p + 2 * i)) < 0 then m (p + 2 * i) else cnj (m (p + 2 * i))"
  let ?m2 = "m(p + 2 * i := ?c, p + (2 * i + 1) := cnj ?c)"
  have "frame p (p + n) m ?m2"
    using inn Suc.prems by (simp add: frame_def)
  moreover have "frame p (p + n) ?m2 (cleanup_conj p num_pairs (Suc i) ?m2)"
    using Suc.hyps(1)[OF d Suc.prems] .
  ultimately show ?case
    unfolding cleanup_conj_step[OF inn] by (rule frame_trans) simp_all
qed

lemma cleanup_conj_perm:
  "2 * num_pairs \<le> n \<Longrightarrow> conj_pairs p i num_pairs m \<Longrightarrow> perm_on p n m (cleanup_conj p num_pairs i m)"
proof (induction "num_pairs - i" arbitrary: i m)
  case 0
  then show ?case by (simp add: cleanup_conj_stop perm_on_refl)
next
  case (Suc d)
  then have inn: "i < num_pairs" and d: "d = num_pairs - Suc i" by simp_all
  let ?c = "if Im (m (p + 2 * i)) < 0 then m (p + 2 * i) else cnj (m (p + 2 * i))"
  let ?m2 = "m(p + 2 * i := ?c, p + (2 * i + 1) := cnj ?c)"
  have b: "m (p + (2 * i + 1)) = cnj (m (p + 2 * i))"
    using Suc.prems(2) inn by (simp add: conj_pairs_def)
  have m2: "?m2 = (if Im (m (p + 2 * i)) < 0 then m else swap_cells (p + 2 * i) (p + (2 * i + 1)) m)"
    using b by (auto simp: swap_cells_def fun_eq_iff)
  have "perm_on p n m (swap_cells (p + 2 * i) (p + (2 * i + 1)) m)"
    using inn Suc.prems(1) by (intro perm_on_swap) simp_all
  then have p2: "perm_on p n m ?m2"
    unfolding m2 by (simp add: perm_on_refl)
  have "conj_pairs p (Suc i) num_pairs ?m2"
    using Suc.prems(2) by (auto simp: conj_pairs_def)
  then have "perm_on p n ?m2 (cleanup_conj p num_pairs (Suc i) ?m2)"
    using Suc.hyps(1)[OF d Suc.prems(1)] by simp
  with p2 show ?case
    unfolding cleanup_conj_step[OF inn] by (rule perm_on_trans)
qed

lemma perm_on_frame: "perm_on p n m m' \<Longrightarrow> frame p (p + n) m m'"
  by (simp add: perm_on_def)

lemma cleanup_frame:
  assumes "2 * num_pairs \<le> n"
  shows "frame p (p + n) m (liquid_cplxpair_cleanup m p n num_pairs)"
proof -
  let ?m1 = "cleanup_conj p num_pairs 0 m"
  let ?m2 = "sort_pairs p num_pairs 0 ?m1"
  have "frame p (p + n) m ?m1" using assms by (rule cleanup_conj_frame)
  moreover have "frame p (p + n) ?m1 ?m2" using sort_pairs_perm[OF assms] by (rule perm_on_frame)
  moreover have "frame p (p + n) ?m2 (sort_reals p n (2 * num_pairs) ?m2)"
    using sort_reals_perm by (rule perm_on_frame)
  ultimately show ?thesis
    unfolding liquid_cplxpair_cleanup_def by (auto simp: frame_def)
qed

lemma cleanup_perm:
  assumes "2 * num_pairs \<le> n" "conj_pairs p 0 num_pairs m"
  shows "perm_on p n m (liquid_cplxpair_cleanup m p n num_pairs)"
proof -
  let ?m1 = "cleanup_conj p num_pairs 0 m"
  let ?m2 = "sort_pairs p num_pairs 0 ?m1"
  have "perm_on p n m ?m1" using assms by (rule cleanup_conj_perm)
  moreover have "perm_on p n ?m1 ?m2" using assms(1) by (rule sort_pairs_perm)
  ultimately have "perm_on p n m ?m2" by (rule perm_on_trans)
  moreover have "perm_on p n ?m2 (sort_reals p n (2 * num_pairs) ?m2)" by (rule sort_reals_perm)
  ultimately show ?thesis
    unfolding liquid_cplxpair_cleanup_def by (rule perm_on_trans)
qed

lemma pass1_inv_pinv: "pass1_inv m0 n p s \<Longrightarrow> pinv n s"
  by (simp add: pass1_inv_def pinv_def)

lemma liquid_cplxpair_Inr:
  assumes "0 \<le> tol"
  shows "liquid_cplxpair m z n tol p =
     Inr (liquid_cplxpair_cleanup (st_mem (cplxpair_collected m z n tol p)) p n
            (st_num_pairs (cplxpair_collected m z n tol p)),
          st_stderr (cplxpair_collected m z n tol p))"
  using assms pass1_k_le[OF pass1_inv_paired[of m n p z tol]]
  by (simp add: liquid_cplxpair_def Let_def)

lemma cplxpair_frame_aux:
  assumes "liquid_cplxpair m z n tol p = Inr (m', w)"
  shows "frame p (p + n) m m'"
proof -
  let ?s1 = "cplxpair_paired m z n tol p"
  let ?s2 = "cplxpair_collected m z n tol p"
  have tol: "0 \<le> tol" using assms by (auto simp: liquid_cplxpair_def split: if_splits)
  have m': "m' = liquid_cplxpair_cleanup (st_mem ?s2) p n (st_num_pairs ?s2)"
    using assms liquid_cplxpair_Inr[OF tol, of m z n p] by simp
  have i1: "pass1_inv m n p ?s1" by (rule pass1_inv_paired)
  then have f1: "frame p (p + st_k ?s1) m (st_mem ?s1)" and k1: "st_k ?s1 = 2 * st_num_pairs ?s1"
    unfolding pass1_inv_def by blast+
  have k1n: "st_k ?s1 \<le> n" using i1 by (rule pass1_k_le)
  have s2: "?s2 = leftover_loop z n tol p 0 ?s1" by (simp add: cplxpair_collected_def)
  from leftover_inv[OF pass1_inv_pinv[OF i1], of z tol p 0]
  have i2: "pinv n ?s2" "st_num_pairs ?s2 = st_num_pairs ?s1"
    "frame (p + st_k ?s1) (p + st_k ?s2) (st_mem ?s1) (st_mem ?s2)"
    unfolding s2 by blast+
  have k2n: "st_k ?s2 \<le> n" using i2(1) by (rule pinv_k_le)
  have "2 * st_num_pairs ?s2 \<le> n" using i2(2) k1 k1n by simp
  then have f3: "frame p (p + n) (st_mem ?s2) m'"
    unfolding m' by (rule cleanup_frame)
  show ?thesis
    using f1 i2(3) f3 k1n k2n by (auto simp: frame_def)
qed

text \<open>
  C10. A call that returns changes no cell outside the \<open>n\<close> cells of the output array
  \<open>_p\<close>; so when the input array \<open>_z\<close> does not overlap the output array, its contents
  after the call are its contents before the call.
\<close>

theorem liquid_cplxpair_frame:
  assumes "liquid_cplxpair m z n tol p = Inr (m', w)"
  shows "(\<forall>a. a < p \<or> p + n \<le> a \<longrightarrow> m' a = m a) \<and>
         (z + n \<le> p \<or> p + n \<le> z \<longrightarrow> array m' z n = array m z n)"
proof -
  have f: "frame p (p + n) m m'" using assms by (rule cplxpair_frame_aux)
  then have "\<forall>a. a < p \<or> p + n \<le> a \<longrightarrow> m' a = m a" by (simp add: frame_def)
  moreover have "z + n \<le> p \<or> p + n \<le> z \<longrightarrow> array m' z n = array m z n"
    using array_frame[OF f] by blast
  ultimately show ?thesis by blast
qed

theorem liquid_cplxpair_frame_witness:
  "array (fst (projr (liquid_cplxpair (store_array (\<lambda>_. 0) 0 [3, 5]) 0 2 (1 / 1000000) 2))) 0 2 = [3, 5] \<and>
   fst (projr (liquid_cplxpair (store_array (\<lambda>_. 0) 0 [3, 5]) 0 2 (1 / 1000000) 2)) 7 = 0"
proof -
  let ?m = "store_array (\<lambda>_. 0) 0 [3, 5]"
  let ?r = "liquid_cplxpair ?m 0 2 (1 / 1000000) 2"
  have "?r = Inr (fst (projr ?r), snd (projr ?r))"
    by (simp add: liquid_cplxpair_Inr)
  from liquid_cplxpair_frame[OF this]
  have "array (fst (projr ?r)) 0 2 = array ?m 0 2" "fst (projr ?r) 7 = ?m 7"
    by simp_all
  moreover have "array ?m 0 2 = [3, 5]" "?m 7 = 0" by code_simp+
  ultimately show ?thesis by simp
qed

subsection \<open>The values that liquid\_cplxpair writes\<close>

lemma pair_emit_sel:
  "st_k (pair_emit z p i j s) = st_k s + 2"
  "st_paired (pair_emit z p i j s) = (st_paired s)[i := True, j := True]"
  "st_num_pairs (pair_emit z p i j s) = st_num_pairs s + 1"
  "st_stderr (pair_emit z p i j s) = st_stderr s"
  "st_mem (pair_emit z p i j s) =
     (st_mem s)(p + st_k s := st_mem s (z + i),
                p + (st_k s + 1) := ((st_mem s)(p + st_k s := st_mem s (z + i))) (z + j))"
  by (simp_all add: pair_emit_def Let_def)

lemma pair_emit_mem:
  assumes "pass1_inv m0 n p s" "pair_cond z n tol i j s" "z + n \<le> p \<or> p + n \<le> z"
  shows "st_mem (pair_emit z p i j s) =
     (st_mem s)(p + st_k s := st_mem s (z + i), p + (st_k s + 1) := st_mem s (z + j))"
    and "Suc (st_k s) < n"
proof -
  have len: "length (st_paired s) = n" and k: "st_k s = card {i. i < n \<and> st_paired s ! i}"
    using assms(1) unfolding pass1_inv_def by blast+
  have c: "i < n" "j < n" "j \<noteq> i" "\<not> st_paired s ! i" "\<not> st_paired s ! j"
    using assms(2) by (simp_all add: pair_cond_def)
  show k2: "Suc (st_k s) < n"
    unfolding k using len c by (intro card_pset_less2[where i = i and j = j]) auto
  have "z + j \<noteq> p + st_k s" using assms(3) c k2 by auto
  then show "st_mem (pair_emit z p i j s) =
     (st_mem s)(p + st_k s := st_mem s (z + i), p + (st_k s + 1) := st_mem s (z + j))"
    by (simp add: pair_emit_sel)
qed

lemma mset_set_pset_update:
  assumes "length xs = n" "i < n" "\<not> xs ! i"
  shows "mset_set {j. j < n \<and> xs[i := True] ! j} = add_mset i (mset_set {j. j < n \<and> xs ! j})"
proof -
  have "finite {j. j < n \<and> xs ! j}" by simp
  moreover have "i \<notin> {j. j < n \<and> xs ! j}" using assms by simp
  ultimately show ?thesis using assms by (simp add: pset_update)
qed

lemma pass1_content_emit:
  assumes inv: "pass1_inv m0 n p s" and c: "pair_cond z n tol i j s"
    and dis: "z + n \<le> p \<or> p + n \<le> z" and ct: "pass1_content Z z n p s"
  shows "pass1_content Z z n p (pair_emit z p i j s)"
proof -
  let ?s' = "pair_emit z p i j s"
  let ?k = "st_k s"
  have len: "length (st_paired s) = n"
    using inv unfolding pass1_inv_def by blast
  have cc: "i < n" "j < n" "j \<noteq> i" "\<not> st_paired s ! i" "\<not> st_paired s ! j"
    using c by (simp_all add: pair_cond_def)
  have Zs: "\<And>l. l < n \<Longrightarrow> st_mem s (z + l) = Z l"
    and ms: "mset (array (st_mem s) p ?k) = image_mset Z (mset_set {i. i < n \<and> st_paired s ! i})"
    using ct unfolding pass1_content_def by blast+
  note mem = pair_emit_mem(1)[OF inv c dis] and k2 = pair_emit_mem(2)[OF inv c dis]
  have z': "\<forall>l<n. st_mem ?s' (z + l) = Z l"
    unfolding mem using dis k2 Zs by auto
  have "array (st_mem ?s') p (?k + 2) = array (st_mem ?s') p ?k @ [st_mem ?s' (p + ?k), st_mem ?s' (p + (?k + 1))]"
    by (simp add: array_Suc)
  also have "array (st_mem ?s') p ?k = array (st_mem s) p ?k"
    unfolding mem by (rule array_cong) simp
  also have "st_mem ?s' (p + ?k) = Z i" unfolding mem using Zs cc by simp
  also have "st_mem ?s' (p + (?k + 1)) = Z j" unfolding mem using Zs cc by simp
  finally have arr: "array (st_mem ?s') p (?k + 2) = array (st_mem s) p ?k @ [Z i, Z j]" .
  have "\<not> (st_paired s)[i := True] ! j" using cc len by (simp add: nth_list_update)
  then have "mset_set {l. l < n \<and> (st_paired s)[i := True, j := True] ! l}
      = add_mset j (mset_set {l. l < n \<and> (st_paired s)[i := True] ! l})"
    using len cc by (intro mset_set_pset_update) simp_all
  also have "mset_set {l. l < n \<and> (st_paired s)[i := True] ! l} = add_mset i (mset_set {l. l < n \<and> st_paired s ! l})"
    using len cc by (intro mset_set_pset_update) simp_all
  finally have "mset (array (st_mem ?s') p (st_k ?s')) = image_mset Z (mset_set {l. l < n \<and> st_paired ?s' ! l})"
    using arr ms by (simp add: pair_emit_sel)
  with z' show ?thesis by (simp add: pass1_content_def)
qed

lemma pass1_conj_emit:
  assumes inv: "pass1_inv m0 n p s" and c: "pair_cond z n tol i j s"
    and dis: "z + n \<le> p \<or> p + n \<le> z" and ct: "pass1_content Z z n p s"
    and ex: "exact_matches Z n tol" and cp: "conj_pairs p 0 (st_num_pairs s) (st_mem s)"
  shows "conj_pairs p 0 (st_num_pairs (pair_emit z p i j s)) (st_mem (pair_emit z p i j s))"
proof -
  have k: "st_k s = 2 * st_num_pairs s"
    using inv unfolding pass1_inv_def by blast
  have Zs: "\<And>l. l < n \<Longrightarrow> st_mem s (z + l) = Z l"
    using ct unfolding pass1_content_def by blast
  have cc: "i < n" "j < n" using c by (simp_all add: pair_cond_def)
  have "Z j = cnj (Z i)"
    using ex c Zs[OF cc(1)] Zs[OF cc(2)] unfolding exact_matches_def pair_cond_def by simp
  then have "st_mem s (z + j) = cnj (st_mem s (z + i))" using Zs cc by simp
  then have mem: "st_mem (pair_emit z p i j s) =
      (st_mem s)(p + 2 * st_num_pairs s := st_mem s (z + i),
                 p + (2 * st_num_pairs s + 1) := cnj (st_mem s (z + i)))"
    using pair_emit_mem(1)[OF inv c dis] k by simp
  have np: "st_num_pairs (pair_emit z p i j s) = Suc (st_num_pairs s)"
    by (simp add: pair_emit_sel)
  show ?thesis
    unfolding mem np using cp by (auto simp: conj_pairs_def less_Suc_eq)
qed

lemma pass1_content_init: "pass1_content (\<lambda>j. m (z + j)) z n p (cplxpair_init m n)"
proof -
  have e: "{i. i < n \<and> replicate n False ! i} = {}" by auto
  show ?thesis by (simp add: pass1_content_def cplxpair_init_def array_def e)
qed

lemma pass1_content_paired:
  assumes "z + n \<le> p \<or> p + n \<le> z"
  shows "pass1_content (\<lambda>j. m (z + j)) z n p (cplxpair_paired m z n tol p)"
proof -
  let ?P = "\<lambda>s. pass1_inv m n p s \<and> pass1_content (\<lambda>j. m (z + j)) z n p s"
  have "?P (pair_outer z n tol p 0 (cplxpair_init m n))"
  proof (rule pair_outer_invariant[where P = ?P])
    show "?P (cplxpair_init m n)"
      using pass1_inv_init pass1_content_init by blast
  next
    fix s i j
    assume "?P s" "pair_cond z n tol i j s"
    then show "?P (pair_emit z p i j s)"
      using pass1_inv_emit pass1_content_emit[OF _ _ assms] by blast
  qed
  then show ?thesis by (simp add: cplxpair_paired_def)
qed

lemma pass1_conj_paired:
  assumes "z + n \<le> p \<or> p + n \<le> z" "exact_matches (\<lambda>j. m (z + j)) n tol"
  shows "conj_pairs p 0 (st_num_pairs (cplxpair_paired m z n tol p)) (st_mem (cplxpair_paired m z n tol p))"
proof -
  let ?P = "\<lambda>s. pass1_inv m n p s \<and> pass1_content (\<lambda>j. m (z + j)) z n p s \<and>
                 conj_pairs p 0 (st_num_pairs s) (st_mem s)"
  have "?P (pair_outer z n tol p 0 (cplxpair_init m n))"
  proof (rule pair_outer_invariant[where P = ?P])
    show "?P (cplxpair_init m n)"
      using pass1_inv_init[of m n p] pass1_content_init[of m z n p]
      by (simp add: conj_pairs_def cplxpair_init_def)
  next
    fix s i j
    assume "?P s" "pair_cond z n tol i j s"
    then show "?P (pair_emit z p i j s)"
      using pass1_inv_emit pass1_content_emit[OF _ _ assms(1)] pass1_conj_emit[OF _ _ assms(1) _ assms(2)]
      by blast
  qed
  then show ?thesis by (simp add: cplxpair_paired_def)
qed

lemma leftover_emit_sel:
  "st_k (leftover_emit z p i s) = Suc (st_k s)"
  "st_paired (leftover_emit z p i s) = (st_paired s)[i := True]"
  "st_num_pairs (leftover_emit z p i s) = st_num_pairs s"
  "st_stderr (leftover_emit z p i s) = st_stderr s"
  "st_mem (leftover_emit z p i s) = (st_mem s)(p + st_k s := st_mem s (z + i))"
  by (simp_all add: leftover_emit_def)

lemma leftover_warn_sel:
  "st_k (leftover_warn s) = st_k s"
  "st_paired (leftover_warn s) = st_paired s"
  "st_num_pairs (leftover_warn s) = st_num_pairs s"
  "st_stderr (leftover_warn s) = st_stderr s @ [cplxpair_warning]"
  "st_mem (leftover_warn s) = st_mem s"
  by (simp_all add: leftover_warn_def)

lemma leftover_content:
  assumes dis: "z + n \<le> p \<or> p + n \<le> z"
  shows "pinv n s \<Longrightarrow> (\<forall>j<n. st_mem s (z + j) = Z j) \<Longrightarrow>
     (\<forall>j. i \<le> j \<and> j < n \<longrightarrow> st_paired s ! j = pd ! j) \<Longrightarrow>
     st_stderr (leftover_loop z n tol p i s) =
       st_stderr s @ replicate (length (filter (\<lambda>j. \<not> pd ! j \<and> Im (Z j) > tol) [i..<n])) cplxpair_warning \<and>
     array (st_mem (leftover_loop z n tol p i s)) p (st_k (leftover_loop z n tol p i s)) =
       array (st_mem s) p (st_k s) @ map Z (filter (\<lambda>j. \<not> pd ! j \<and> \<not> Im (Z j) > tol) [i..<n])"
proof (induction "n - i" arbitrary: i s)
  case 0
  then have "\<not> i < n" by simp
  then show ?case by (simp add: leftover_steps)
next
  case (Suc d)
  then have inn: "i < n" and d: "d = n - Suc i" by simp_all
  have upt: "[i..<n] = i # [Suc i..<n]" using inn by (rule upt_conv_Cons)
  have pdi: "st_paired s ! i = pd ! i" using Suc.prems(3) inn by simp
  have Zi: "st_mem s (z + i) = Z i" using Suc.prems(2) inn by simp
  show ?case
  proof (cases "st_paired s ! i")
    case True
    have "\<forall>j. Suc i \<le> j \<and> j < n \<longrightarrow> st_paired s ! j = pd ! j" using Suc.prems(3) by simp
    from Suc.hyps(1)[OF d Suc.prems(1,2) this]
    show ?thesis using True pdi inn by (simp add: leftover_steps upt)
  next
    case unp: False
    show ?thesis
    proof (cases "Im (st_mem s (z + i)) > tol")
      case True
      let ?s1 = "leftover_warn s"
      have a: "pinv n ?s1" using Suc.prems(1) by (rule pinv_warn)
      have b: "\<forall>j<n. st_mem ?s1 (z + j) = Z j" using Suc.prems(2) by (simp add: leftover_warn_sel)
      have c: "\<forall>j. Suc i \<le> j \<and> j < n \<longrightarrow> st_paired ?s1 ! j = pd ! j"
        using Suc.prems(3) by (simp add: leftover_warn_sel)
      have eq: "leftover_loop z n tol p i s = leftover_loop z n tol p (Suc i) ?s1"
        using inn unp True by (simp add: leftover_steps)
      from Suc.hyps(1)[OF d a b c]
      show ?thesis unfolding eq using True unp pdi Zi
        by (simp add: leftover_warn_sel upt replicate_app_Cons_same)
    next
      case False
      let ?s1 = "leftover_emit z p i s"
      have kn: "st_k s < n" using Suc.prems(1) inn unp by (rule pinv_k_less)
      have a: "pinv n ?s1" using Suc.prems(1) inn unp by (rule pinv_emit)
      have b: "\<forall>j<n. st_mem ?s1 (z + j) = Z j"
        using Suc.prems(2) dis kn by (auto simp: leftover_emit_sel)
      have len: "length (st_paired s) = n" using Suc.prems(1) by (simp add: pinv_def)
      have c: "\<forall>j. Suc i \<le> j \<and> j < n \<longrightarrow> st_paired ?s1 ! j = pd ! j"
        using Suc.prems(3) len by (simp add: leftover_emit_sel nth_list_update)
      have eq: "leftover_loop z n tol p i s = leftover_loop z n tol p (Suc i) ?s1"
        using inn unp False by (simp add: leftover_steps)
      have "array (st_mem ?s1) p (st_k ?s1) = array (st_mem ?s1) p (st_k s) @ [st_mem ?s1 (p + st_k s)]"
        by (simp add: leftover_emit_sel(1) array_Suc)
      also have "array (st_mem ?s1) p (st_k s) = array (st_mem s) p (st_k s)"
        by (rule array_cong) (simp add: leftover_emit_sel)
      also have "st_mem ?s1 (p + st_k s) = Z i" using Zi by (simp add: leftover_emit_sel)
      finally have arr: "array (st_mem ?s1) p (st_k ?s1) = array (st_mem s) p (st_k s) @ [Z i]" .
      from Suc.hyps(1)[OF d a b c]
      show ?thesis unfolding eq arr using False unp pdi Zi
        by (simp add: leftover_emit_sel upt)
    qed
  qed
qed

lemma mset_filter_upt: "mset (filter P [0..<n]) = mset_set {i. i < n \<and> P i}"
proof -
  have "{x \<in> {0..<n}. P x} = {i. i < n \<and> P i}" by auto
  then show ?thesis by simp
qed

lemma card_pset_filter: "card {i. i < n \<and> P i} = length (filter P [0..<n])"
proof -
  have "set (filter P [0..<n]) = {i. i < n \<and> P i}" by auto
  moreover have "card (set (filter P [0..<n])) = length (filter P [0..<n])"
    by (rule distinct_card) simp
  ultimately show ?thesis by simp
qed

lemma length_filter3:
  "length (filter P xs) + length (filter (\<lambda>x. \<not> P x \<and> Q x) xs) +
     length (filter (\<lambda>x. \<not> P x \<and> \<not> Q x) xs) = length xs"
  by (induction xs) auto

lemma cplxpair_collected_content:
  assumes dis: "z + n \<le> p \<or> p + n \<le> z"
  shows "st_stderr (cplxpair_collected m z n tol p) =
      replicate (length (filter (\<lambda>i. \<not> st_paired (cplxpair_paired m z n tol p) ! i \<and> Im (m (z + i)) > tol) [0..<n]))
        cplxpair_warning"
    and "array (st_mem (cplxpair_collected m z n tol p)) p (st_k (cplxpair_collected m z n tol p)) =
      array (st_mem (cplxpair_paired m z n tol p)) p (st_k (cplxpair_paired m z n tol p)) @
      map (\<lambda>i. m (z + i))
        (filter (\<lambda>i. \<not> st_paired (cplxpair_paired m z n tol p) ! i \<and> \<not> Im (m (z + i)) > tol) [0..<n])"
    and "st_k (cplxpair_collected m z n tol p) +
      length (filter (\<lambda>i. \<not> st_paired (cplxpair_paired m z n tol p) ! i \<and> Im (m (z + i)) > tol) [0..<n]) = n"
proof -
  let ?s1 = "cplxpair_paired m z n tol p"
  let ?s2 = "cplxpair_collected m z n tol p"
  let ?Z = "\<lambda>i. m (z + i)"
  have i1: "pass1_inv m n p ?s1" by (rule pass1_inv_paired)
  have c1: "pass1_content ?Z z n p ?s1" using dis by (rule pass1_content_paired)
  have err1: "st_stderr ?s1 = []" and k1: "st_k ?s1 = card {i. i < n \<and> st_paired ?s1 ! i}"
    using i1 unfolding pass1_inv_def by blast+
  have Z1: "\<forall>j<n. st_mem ?s1 (z + j) = ?Z j" using c1 unfolding pass1_content_def by blast
  have s2: "?s2 = leftover_loop z n tol p 0 ?s1" by (simp add: cplxpair_collected_def)
  from leftover_content[OF dis pass1_inv_pinv[OF i1] Z1, of 0 "st_paired ?s1" tol]
  have a: "st_stderr ?s2 = st_stderr ?s1 @
       replicate (length (filter (\<lambda>i. \<not> st_paired ?s1 ! i \<and> Im (?Z i) > tol) [0..<n])) cplxpair_warning"
    and b: "array (st_mem ?s2) p (st_k ?s2) = array (st_mem ?s1) p (st_k ?s1) @
       map ?Z (filter (\<lambda>i. \<not> st_paired ?s1 ! i \<and> \<not> Im (?Z i) > tol) [0..<n])"
    unfolding s2 by simp_all
  show "st_stderr ?s2 =
      replicate (length (filter (\<lambda>i. \<not> st_paired ?s1 ! i \<and> Im (m (z + i)) > tol) [0..<n])) cplxpair_warning"
    using a err1 by simp
  show "array (st_mem ?s2) p (st_k ?s2) = array (st_mem ?s1) p (st_k ?s1) @
      map ?Z (filter (\<lambda>i. \<not> st_paired ?s1 ! i \<and> \<not> Im (m (z + i)) > tol) [0..<n])"
    using b .
  have "length (array (st_mem ?s2) p (st_k ?s2)) = length (array (st_mem ?s1) p (st_k ?s1) @
       map ?Z (filter (\<lambda>i. \<not> st_paired ?s1 ! i \<and> \<not> Im (?Z i) > tol) [0..<n]))"
    using b by simp
  then have "st_k ?s2 = st_k ?s1 + length (filter (\<lambda>i. \<not> st_paired ?s1 ! i \<and> \<not> Im (?Z i) > tol) [0..<n])"
    by simp
  moreover have "st_k ?s1 = length (filter (\<lambda>i. st_paired ?s1 ! i) [0..<n])"
    unfolding k1 by (rule card_pset_filter)
  ultimately show "st_k ?s2 +
      length (filter (\<lambda>i. \<not> st_paired ?s1 ! i \<and> Im (m (z + i)) > tol) [0..<n]) = n"
    using length_filter3[of "\<lambda>i. st_paired ?s1 ! i" "[0..<n]" "\<lambda>i. Im (m (z + i)) > tol"]
    by simp
qed

lemma cplxpair_collected_frame:
  "st_num_pairs (cplxpair_collected m z n tol p) = st_num_pairs (cplxpair_paired m z n tol p)"
  "frame p (p + st_k (cplxpair_collected m z n tol p)) m (st_mem (cplxpair_collected m z n tol p))"
proof -
  let ?s1 = "cplxpair_paired m z n tol p"
  let ?s2 = "cplxpair_collected m z n tol p"
  have i1: "pass1_inv m n p ?s1" by (rule pass1_inv_paired)
  then have f1: "frame p (p + st_k ?s1) m (st_mem ?s1)"
    unfolding pass1_inv_def by blast
  have s2: "?s2 = leftover_loop z n tol p 0 ?s1" by (simp add: cplxpair_collected_def)
  from leftover_inv[OF pass1_inv_pinv[OF i1], of z tol p 0]
  have np: "st_num_pairs ?s2 = st_num_pairs ?s1" and k: "st_k ?s1 \<le> st_k ?s2"
    and f2: "frame (p + st_k ?s1) (p + st_k ?s2) (st_mem ?s1) (st_mem ?s2)"
    unfolding s2 by blast+
  show "st_num_pairs ?s2 = st_num_pairs ?s1" by (rule np)
  show "frame p (p + st_k ?s2) m (st_mem ?s2)"
    using f1 f2 k by (auto simp: frame_def)
qed

text \<open>
  C3, as the code has it. The tolerance is not negative, the input array does not overlap
  the output array, and no element that the pairing pass leaves unpaired has an
  imaginary part below \<open>- tol\<close>. Then the call returns the cleanup of the store that the
  two passes leave, with one warning for each unpaired element whose imaginary part is
  greater than \<open>tol\<close>. Such an element is not written: in that store the cells after the
  pairs hold the unpaired elements with \<open>\<bar>Im\<bar> \<le> tol\<close>, in input order; their number plus
  the number of warnings is what is missing to \<open>n\<close>; and every other cell, in particular
  the last cells of the output array (one for each warning), holds what it held before
  the call.
\<close>

theorem cplxpair_unpaired_warned_not_emitted:
  assumes "0 \<le> tol" "z + n \<le> p \<or> p + n \<le> z"
    and "\<forall>i<n. \<not> st_paired (cplxpair_paired m z n tol p) ! i \<longrightarrow> - tol \<le> Im (m (z + i))"
  shows "liquid_cplxpair m z n tol p =
       Inr (liquid_cplxpair_cleanup (st_mem (cplxpair_collected m z n tol p)) p n
              (st_num_pairs (cplxpair_paired m z n tol p)),
            replicate (length (filter (\<lambda>i. \<not> st_paired (cplxpair_paired m z n tol p) ! i \<and>
                                          Im (m (z + i)) > tol) [0..<n])) cplxpair_warning) \<and>
     array (st_mem (cplxpair_collected m z n tol p)) p (st_k (cplxpair_collected m z n tol p)) =
       array (st_mem (cplxpair_paired m z n tol p)) p (st_k (cplxpair_paired m z n tol p)) @
       map (\<lambda>i. m (z + i))
         (filter (\<lambda>i. \<not> st_paired (cplxpair_paired m z n tol p) ! i \<and> \<bar>Im (m (z + i))\<bar> \<le> tol) [0..<n]) \<and>
     st_k (cplxpair_collected m z n tol p) +
       length (filter (\<lambda>i. \<not> st_paired (cplxpair_paired m z n tol p) ! i \<and> Im (m (z + i)) > tol) [0..<n]) = n \<and>
     (\<forall>a. a < p \<or> p + st_k (cplxpair_collected m z n tol p) \<le> a \<longrightarrow>
          st_mem (cplxpair_collected m z n tol p) a = m a)"
proof -
  let ?s1 = "cplxpair_paired m z n tol p"
  let ?s2 = "cplxpair_collected m z n tol p"
  note cc = cplxpair_collected_content[OF assms(2), of m tol]
  note fr = cplxpair_collected_frame[where m = m and z = z and n = n and tol = tol and p = p]
  have fe: "filter (\<lambda>i. \<not> st_paired ?s1 ! i \<and> \<not> Im (m (z + i)) > tol) [0..<n]
      = filter (\<lambda>i. \<not> st_paired ?s1 ! i \<and> \<bar>Im (m (z + i))\<bar> \<le> tol) [0..<n]"
    using assms(3) by (intro filter_cong) auto
  have c1: "liquid_cplxpair m z n tol p =
       Inr (liquid_cplxpair_cleanup (st_mem ?s2) p n (st_num_pairs ?s1),
            replicate (length (filter (\<lambda>i. \<not> st_paired ?s1 ! i \<and> Im (m (z + i)) > tol) [0..<n])) cplxpair_warning)"
    using liquid_cplxpair_Inr[OF assms(1), of m z n p] cc(1) fr(1) by simp
  have c2: "array (st_mem ?s2) p (st_k ?s2) = array (st_mem ?s1) p (st_k ?s1) @
       map (\<lambda>i. m (z + i)) (filter (\<lambda>i. \<not> st_paired ?s1 ! i \<and> \<bar>Im (m (z + i))\<bar> \<le> tol) [0..<n])"
    using cc(2) unfolding fe .
  have c4: "\<forall>a. a < p \<or> p + st_k ?s2 \<le> a \<longrightarrow> st_mem ?s2 a = m a"
    using fr(2) by (simp add: frame_def)
  show ?thesis by (intro conjI c1 c2 cc(3) c4)
qed

theorem cplxpair_unpaired_warned_not_emitted_witness:
  "liquid_cplxpair (store_array (\<lambda>_. 7) 0 [Complex 1 2, 3]) 0 2 (1 / 2) 2 =
     Inr (liquid_cplxpair_cleanup
            (st_mem (cplxpair_collected (store_array (\<lambda>_. 7) 0 [Complex 1 2, 3]) 0 2 (1 / 2) 2)) 2 2
            (st_num_pairs (cplxpair_paired (store_array (\<lambda>_. 7) 0 [Complex 1 2, 3]) 0 2 (1 / 2) 2)),
          [cplxpair_warning]) \<and>
   st_k (cplxpair_collected (store_array (\<lambda>_. 7) 0 [Complex 1 2, 3]) 0 2 (1 / 2) 2) = 1 \<and>
   st_mem (cplxpair_collected (store_array (\<lambda>_. 7) 0 [Complex 1 2, 3]) 0 2 (1 / 2) 2) 3 = 7"
proof -
  let ?m = "store_array (\<lambda>_. 7) 0 [Complex 1 2, 3]"
  have h: "(0::real) \<le> 1 / 2" "(0::nat) + 2 \<le> 2 \<or> (2::nat) + 2 \<le> 0" by simp_all
  have im: "Im (?m (0 + 0)) = 2" "Im (?m (0 + 1)) = 0" by code_simp+
  have h3: "\<forall>i<2. \<not> st_paired (cplxpair_paired ?m 0 2 (1 / 2) 2) ! i \<longrightarrow> - (1 / 2) \<le> Im (?m (0 + i))"
  proof (intro allI impI)
    fix i :: nat assume "i < 2"
    then consider "i = 0" | "i = 1" by linarith
    then show "- (1 / 2) \<le> Im (?m (0 + i))" using im by cases simp_all
  qed
  have f: "filter (\<lambda>i. \<not> st_paired (cplxpair_paired ?m 0 2 (1 / 2) 2) ! i \<and> Im (?m (0 + i)) > 1 / 2) [0..<2] = [0]"
    by code_simp
  have m3: "?m 3 = 7" by code_simp
  note t = cplxpair_unpaired_warned_not_emitted[OF h h3, unfolded f]
  have k: "st_k (cplxpair_collected ?m 0 2 (1 / 2) 2) = 1"
    using t by simp
  have "st_mem (cplxpair_collected ?m 0 2 (1 / 2) 2) 3 = ?m 3"
    using t k by simp
  then show ?thesis using t k m3 by simp
qed

text \<open>
  C3 as stated fails: on the input \<open>[0 + 1 i]\<close> with tolerance \<open>0.5\<close> the warning is
  written, and the output cell keeps the value \<open>7\<close> it had before the call.
\<close>

theorem cplxpair_unpaired_counterexample:
  "cplxpair_arrays [Complex 0 1] 1 (1 / 2) [7] = Inr ([7], [cplxpair_warning]) \<and>
   Complex 0 1 \<notin> set [7 :: complex]"
proof -
  have "cplxpair_arrays [Complex 0 1] 1 (1 / 2) [7] = Inr ([7], [cplxpair_warning])"
    by code_simp
  moreover have "Complex 0 1 \<notin> set [7 :: complex]"
    by (simp add: complex_eq_iff)
  ultimately show ?thesis by blast
qed

lemma conj_pairs_frame:
  "conj_pairs p 0 np m \<Longrightarrow> frame (p + 2 * np) hi m m' \<Longrightarrow> conj_pairs p 0 np m'"
  by (simp add: conj_pairs_def frame_def)

lemma cplxpair_permutation_aux:
  assumes res: "liquid_cplxpair m z n tol p = Inr (m', [])"
    and dis: "z + n \<le> p \<or> p + n \<le> z"
    and ex: "exact_matches (\<lambda>j. m (z + j)) n tol"
  shows "mset (array m' p n) = mset (array m z n)"
proof -
  let ?s1 = "cplxpair_paired m z n tol p"
  let ?s2 = "cplxpair_collected m z n tol p"
  let ?Z = "\<lambda>i. m (z + i)"
  let ?pd = "\<lambda>i. st_paired ?s1 ! i"
  have tol: "0 \<le> tol" using res by (auto simp: liquid_cplxpair_def split: if_splits)
  have m': "m' = liquid_cplxpair_cleanup (st_mem ?s2) p n (st_num_pairs ?s2)"
    and err2: "st_stderr ?s2 = []"
    using res liquid_cplxpair_Inr[OF tol, of m z n p] by simp_all
  have i1: "pass1_inv m n p ?s1" by (rule pass1_inv_paired)
  have c1: "pass1_content ?Z z n p ?s1" using dis by (rule pass1_content_paired)
  have k1: "st_k ?s1 = 2 * st_num_pairs ?s1"
    using i1 unfolding pass1_inv_def by blast
  have ms1: "mset (array (st_mem ?s1) p (st_k ?s1)) = image_mset ?Z (mset_set {i. i < n \<and> ?pd i})"
    using c1 unfolding pass1_content_def by blast
  note cc = cplxpair_collected_content[OF dis, of m tol]
  have w0: "filter (\<lambda>i. \<not> ?pd i \<and> Im (m (z + i)) > tol) [0..<n] = []"
    using cc(1) err2 by simp
  then have "\<And>i. i \<in> set [0..<n] \<Longrightarrow> \<not> (\<not> ?pd i \<and> Im (m (z + i)) > tol)"
    unfolding filter_empty_conv by blast
  then have fe: "filter (\<lambda>i. \<not> ?pd i \<and> \<not> Im (m (z + i)) > tol) [0..<n] = filter (\<lambda>i. \<not> ?pd i) [0..<n]"
    by (intro filter_cong) auto
  have k2: "st_k ?s2 = n" using cc(3) w0 by simp
  have "mset (array (st_mem ?s2) p n) =
      image_mset ?Z (mset_set {i. i < n \<and> ?pd i}) + image_mset ?Z (mset (filter (\<lambda>i. \<not> ?pd i) [0..<n]))"
    using cc(2) ms1 unfolding k2 fe by simp
  also have "mset_set {i. i < n \<and> ?pd i} = mset (filter ?pd [0..<n])"
    by (simp only: mset_filter_upt)
  also have "image_mset ?Z (mset (filter ?pd [0..<n])) + image_mset ?Z (mset (filter (\<lambda>i. \<not> ?pd i) [0..<n]))
      = image_mset ?Z (mset [0..<n])"
    unfolding image_mset_union[symmetric] mset_filter
    using multiset_partition[of "mset [0..<n]" ?pd] by simp
  also have "\<dots> = mset (array m z n)" by (simp add: array_def)
  finally have ms2: "mset (array (st_mem ?s2) p n) = mset (array m z n)" .
  have s2: "?s2 = leftover_loop z n tol p 0 ?s1" by (simp add: cplxpair_collected_def)
  from leftover_inv[OF pass1_inv_pinv[OF i1], of z tol p 0]
  have np2: "st_num_pairs ?s2 = st_num_pairs ?s1"
    and f2: "frame (p + st_k ?s1) (p + st_k ?s2) (st_mem ?s1) (st_mem ?s2)"
    unfolding s2 by blast+
  have "conj_pairs p 0 (st_num_pairs ?s1) (st_mem ?s1)"
    using dis ex by (rule pass1_conj_paired)
  then have cp2: "conj_pairs p 0 (st_num_pairs ?s2) (st_mem ?s2)"
    unfolding np2 using f2[unfolded k1] by (rule conj_pairs_frame)
  have "2 * st_num_pairs ?s2 \<le> n"
    unfolding np2 using pass1_k_le[OF i1] k1 by simp
  then have "perm_on p n (st_mem ?s2) m'"
    unfolding m' using cp2 by (rule cleanup_perm)
  then show ?thesis using ms2 by (simp add: perm_on_def)
qed

text \<open>
  C1, as the code has it. The output array always has \<open>n\<close> cells. When the input array
  does not overlap the output array, the call writes no warning, and any two input
  elements with imaginary magnitude not below the tolerance that match within the
  tolerance are exact conjugates of each other, the output is a permutation of the
  input. (An element that is left unpaired with an imaginary part above the tolerance is
  not written, and the cleanup replaces an inexact pair by an exact one.)
\<close>

theorem cplxpair_permutation:
  assumes "liquid_cplxpair m z n tol p = Inr (m', [])"
    and "z + n \<le> p \<or> p + n \<le> z"
    and "exact_matches (\<lambda>j. m (z + j)) n tol"
  shows "length (array m' p n) = n \<and> mset (array m' p n) = mset (array m z n)"
  using cplxpair_permutation_aux[OF assms] by simp

theorem cplxpair_permutation_witness:
  "mset (array (fst (projr (liquid_cplxpair
      (store_array (\<lambda>_. 0) 0 [Complex 0 2, 5, Complex 0 (- 2)]) 0 3 (1 / 2) 3))) 3 3)
   = mset [Complex 0 2, 5, Complex 0 (- 2)]"
proof -
  let ?m = "store_array (\<lambda>_. 0) 0 [Complex 0 2, 5, Complex 0 (- 2)]"
  let ?r = "liquid_cplxpair ?m 0 3 (1 / 2) 3"
  have "st_stderr (cplxpair_collected ?m 0 3 (1 / 2) 3) = []" by code_simp
  then have r: "?r = Inr (fst (projr ?r), [])"
    by (simp add: liquid_cplxpair_Inr)
  have d: "(0::nat) + 3 \<le> 3 \<or> (3::nat) + 3 \<le> 0" by simp
  have u: "{0..<3::nat} = {0, 1, 2}" by auto
  have e: "exact_matches (\<lambda>j. ?m (0 + j)) 3 (1 / 2)"
    unfolding exact_matches_def u by (simp add: complex_eq_iff)
  have a: "array ?m 0 3 = [Complex 0 2, 5, Complex 0 (- 2)]"
    by code_simp
  from cplxpair_permutation[OF r d e] show ?thesis
    unfolding a by blast
qed

text \<open>
  C1 as stated fails: on the input \<open>[1 + 2 i, 3]\<close> with tolerance \<open>0.5\<close> and an output
  array that held \<open>[7, 7]\<close>, the output is \<open>[7, 3]\<close>.
\<close>

theorem cplxpair_permutation_counterexample:
  "cplxpair_arrays [Complex 1 2, 3] 2 (1 / 2) [7, 7] = Inr ([7, 3], [cplxpair_warning]) \<and>
   mset [7, 3] \<noteq> mset [Complex 1 2, 3 :: complex]"
proof -
  have "cplxpair_arrays [Complex 1 2, 3] 2 (1 / 2) [7, 7] = Inr ([7, 3], [cplxpair_warning])"
    by code_simp
  moreover have "(7::complex) \<in> set [7, 3]" "(7::complex) \<notin> set [Complex 1 2, 3 :: complex]"
    by (simp_all add: complex_eq_iff)
  then have "mset [7, 3] \<noteq> mset [Complex 1 2, 3 :: complex]" by (metis mset_eq_setD)
  ultimately show ?thesis by blast
qed

subsection \<open>The bilinear transform\<close>

lemma bilinear_loop_stop: "\<not> i < n \<Longrightarrow> bilinear_loop za nza pa n m i (zd, pd, G) = (zd, pd, G)"
  by (subst bilinear_loop.simps) simp

lemma bilinear_loop_step:
  "i < n \<Longrightarrow> i < length zd \<Longrightarrow> i < length pd \<Longrightarrow>
   bilinear_loop za nza pa n m i (zd, pd, G) =
     bilinear_loop za nza pa n m (Suc i)
       (zd[i := bilinear_zero za nza m i], pd[i := bilinear_pole pa m i],
        G * ((1 - bilinear_pole pa m i) / (1 - bilinear_zero za nza m i)))"
  by (subst bilinear_loop.simps) (simp add: Let_def bilinear_zero_def bilinear_pole_def)

lemma bilinear_loop_result:
  "n \<le> length zd \<Longrightarrow> n \<le> length pd \<Longrightarrow>
   bilinear_loop za nza pa n m i (zd, pd, G) =
     (map (\<lambda>j. if i \<le> j \<and> j < n then bilinear_zero za nza m j else zd ! j) [0..<length zd],
      map (\<lambda>j. if i \<le> j \<and> j < n then bilinear_pole pa m j else pd ! j) [0..<length pd],
      G * (\<Prod>j = i..<n. (1 - bilinear_pole pa m j) / (1 - bilinear_zero za nza m j)))"
proof (induction "n - i" arbitrary: i zd pd G)
  case 0
  then have ni: "\<not> i < n" by simp
  have "map (\<lambda>j. if i \<le> j \<and> j < n then bilinear_zero za nza m j else zd ! j) [0..<length zd] = zd"
    "map (\<lambda>j. if i \<le> j \<and> j < n then bilinear_pole pa m j else pd ! j) [0..<length pd] = pd"
    using ni by (auto intro!: nth_equalityI)
  then show ?case using ni by (simp add: bilinear_loop_stop)
next
  case (Suc d)
  then have inn: "i < n" and d: "d = n - Suc i" by simp_all
  have il: "i < length zd" "i < length pd" using inn Suc.prems by simp_all
  let ?zd = "zd[i := bilinear_zero za nza m i]"
  let ?pd = "pd[i := bilinear_pole pa m i]"
  have l: "n \<le> length ?zd" "n \<le> length ?pd" using Suc.prems by simp_all
  have z: "map (\<lambda>j. if Suc i \<le> j \<and> j < n then bilinear_zero za nza m j else ?zd ! j) [0..<length ?zd]
      = map (\<lambda>j. if i \<le> j \<and> j < n then bilinear_zero za nza m j else zd ! j) [0..<length zd]"
    using inn il by (auto simp: nth_list_update)
  have p: "map (\<lambda>j. if Suc i \<le> j \<and> j < n then bilinear_pole pa m j else ?pd ! j) [0..<length ?pd]
      = map (\<lambda>j. if i \<le> j \<and> j < n then bilinear_pole pa m j else pd ! j) [0..<length pd]"
    using inn il by (auto simp: nth_list_update)
  have g: "(\<Prod>j = i..<n. (1 - bilinear_pole pa m j) / (1 - bilinear_zero za nza m j))
      = (1 - bilinear_pole pa m i) / (1 - bilinear_zero za nza m i) *
        (\<Prod>j = Suc i..<n. (1 - bilinear_pole pa m j) / (1 - bilinear_zero za nza m j))"
    using inn by (simp add: prod.atLeast_Suc_lessThan)
  show ?case
    unfolding bilinear_loop_step[OF inn il] Suc.hyps(1)[OF d l] z p g
    by (simp add: mult.assoc)
qed

lemma bilinear_zpkf_nth:
  assumes "npa \<le> length zd" "npa \<le> length pd"
    and "bilinear_zpkf za nza pa npa ka m zd pd = (zd', pd', kd)"
  shows "\<And>i. i < npa \<Longrightarrow> zd' ! i = bilinear_zero za nza m i"
    and "\<And>i. i < npa \<Longrightarrow> pd' ! i = bilinear_pole pa m i"
    and "kd = ka * (\<Prod>j = 0..<npa. (1 - bilinear_pole pa m j) / (1 - bilinear_zero za nza m j))"
    and "length zd' = length zd" and "length pd' = length pd"
    and "\<And>i. npa \<le> i \<Longrightarrow> i < length zd \<Longrightarrow> zd' ! i = zd ! i"
    and "\<And>i. npa \<le> i \<Longrightarrow> i < length pd \<Longrightarrow> pd' ! i = pd ! i"
proof -
  note r = assms(3)[unfolded bilinear_zpkf_def bilinear_loop_result[OF assms(1,2)]]
  have zd': "zd' = map (\<lambda>j. if 0 \<le> j \<and> j < npa then bilinear_zero za nza m j else zd ! j) [0..<length zd]"
    and pd': "pd' = map (\<lambda>j. if 0 \<le> j \<and> j < npa then bilinear_pole pa m j else pd ! j) [0..<length pd]"
    and kd: "kd = ka * (\<Prod>j = 0..<npa. (1 - bilinear_pole pa m j) / (1 - bilinear_zero za nza m j))"
    using r by simp_all
  show "\<And>i. i < npa \<Longrightarrow> zd' ! i = bilinear_zero za nza m i"
    unfolding zd' using assms(1) by simp
  show "\<And>i. i < npa \<Longrightarrow> pd' ! i = bilinear_pole pa m i"
    unfolding pd' using assms(2) by simp
  show "kd = ka * (\<Prod>j = 0..<npa. (1 - bilinear_pole pa m j) / (1 - bilinear_zero za nza m j))"
    by (rule kd)
  show "length zd' = length zd" "length pd' = length pd"
    unfolding zd' pd' by simp_all
  show "\<And>i. npa \<le> i \<Longrightarrow> i < length zd \<Longrightarrow> zd' ! i = zd ! i"
    unfolding zd' by simp
  show "\<And>i. npa \<le> i \<Longrightarrow> i < length pd \<Longrightarrow> pd' ! i = pd ! i"
    unfolding pd' by simp
qed

text \<open>
  C5. With arrays of the documented sizes, \<^verbatim>\<open>bilinear_zpkf\<close> leaves at every index
  \<open>i < n\<close> the digital zero \<open>(1 + za[i] m) / (1 - za[i] m)\<close> when \<open>i\<close> is below the number of
  analog zeros and \<open>-1\<close> otherwise, and the digital pole \<open>(1 + pa[i] m) / (1 - pa[i] m)\<close>;
  the digital gain is the nominal gain times the product over all \<open>i < n\<close> of
  \<open>(1 - pd[i]) / (1 - zd[i])\<close>, taken on the digital poles and zeros just computed.
\<close>

theorem bilinear_zpkf_result:
  assumes "nza \<le> length za" "npa \<le> length pa" "npa \<le> length zd" "npa \<le> length pd"
    and "bilinear_zpkf za nza pa npa ka m zd pd = (zd', pd', kd)"
  shows "(\<forall>i<npa. zd' ! i = (if i < nza then (1 + za ! i * complex_of_real m) / (1 - za ! i * complex_of_real m)
                                  else - 1) \<and>
                    pd' ! i = (1 + pa ! i * complex_of_real m) / (1 - pa ! i * complex_of_real m)) \<and>
         kd = ka * (\<Prod>i = 0..<npa. (1 - pd' ! i) / (1 - zd' ! i))"
proof -
  note n = bilinear_zpkf_nth[OF assms(3,4,5)]
  have "(\<Prod>i = 0..<npa. (1 - pd' ! i) / (1 - zd' ! i))
      = (\<Prod>j = 0..<npa. (1 - bilinear_pole pa m j) / (1 - bilinear_zero za nza m j))"
    by (rule prod.cong) (simp_all add: n(1,2))
  then show ?thesis
    using n(1,2,3) by (simp add: bilinear_zero_def bilinear_pole_def)
qed

theorem bilinear_zpkf_result_witness:
  "bilinear_zpkf [] 0 [- 1] 1 1 1 [0] [0] = ([- 1], [0], 1 / 2) \<and>
   [- 1 :: complex] ! 0 = - 1 \<and>
   [0 :: complex] ! 0 = (1 + [- 1] ! 0 * complex_of_real 1) / (1 - [- 1] ! 0 * complex_of_real 1) \<and>
   (1 / 2 :: complex) = 1 * (\<Prod>i = 0..<1. (1 - [0] ! i) / (1 - [- 1] ! i))"
proof -
  have r: "bilinear_zpkf [] 0 [- 1] 1 1 1 [0] [0] = ([- 1], [0], 1 / 2)"
    by (simp add: bilinear_zpkf_def bilinear_loop.simps)
  have l: "(0::nat) \<le> length ([] :: complex list)" "(1::nat) \<le> length [- 1 :: complex]"
    "(1::nat) \<le> length [0 :: complex]"
    by simp_all
  from bilinear_zpkf_result[OF l(1) l(2) l(3) l(3) r] r show ?thesis
    by simp
qed

subsection \<open>Second-order sections\<close>








lemma cplxpair_arrays_Inr:
  assumes "0 \<le> tol"
  shows "\<exists>out w. cplxpair_arrays z n tol p0 = Inr (out, w) \<and> length out = n"
  using liquid_cplxpair_Inr[OF assms]
  by (simp add: cplxpair_arrays_def)

lemma sosf_unfold:
  assumes "cplxpair_arrays (take n zd) n (8796093 / 8796093022208) zp0 = Inr (zp, wz)"
    and "cplxpair_arrays (take n pd) n (8796093 / 8796093022208) pp0 = Inr (pp, wp)"
    and "sos_loop zp pp (n div 2) 0 (B, A) = (B1, A1)"
    and "B2 = (if n mod 2 \<noteq> 0
               then B1[3 * (n div 2) + 0 := 1, 3 * (n div 2) + 1 := Re (- zp ! (n - 1)), 3 * (n div 2) + 2 := 0]
               else B1)"
    and "A2 = (if n mod 2 \<noteq> 0
               then A1[3 * (n div 2) + 0 := 1, 3 * (n div 2) + 1 := Re (- pp ! (n - 1)), 3 * (n div 2) + 2 := 0]
               else A1)"
  shows "iirdes_dzpk2sosf zd pd n kd B A zp0 pp0 =
     Inr (B2[0 := B2 ! 0 * Re kd, 1 := B2 ! 1 * Re kd, 2 := B2 ! 2 * Re kd], A2, wz @ wp)"
proof -
  have L: "(n - n mod 2) div 2 = n div 2" by presburger
  show ?thesis
    unfolding iirdes_dzpk2sosf_def Let_def assms(1,2) L
    by (simp add: assms(3,4,5))
qed








subsection \<open>Band types and validation in iirdes\<close>

lemma bp_root_simps:
  "bp_root c0 xs (2 * i) =
     0.5 * (complex_of_real c0 * (1 + xs ! i) +
            csqrt (complex_of_real (c0 * c0) * (1 + xs ! i) * (1 + xs ! i) - 4 * xs ! i))"
  "bp_root c0 xs (2 * i + 1) =
     0.5 * (complex_of_real c0 * (1 + xs ! i) -
            csqrt (complex_of_real (c0 * c0) * (1 + xs ! i) * (1 + xs ! i) - 4 * xs ! i))"
proof -
  have a: "(2 * i + 1) mod 2 = 1" "(2 * i + 1) div 2 = i" by presburger+
  show "bp_root c0 xs (2 * i) =
     0.5 * (complex_of_real c0 * (1 + xs ! i) +
            csqrt (complex_of_real (c0 * c0) * (1 + xs ! i) * (1 + xs ! i) - 4 * xs ! i))"
    by (simp add: bp_root_def)
  show "bp_root c0 xs (2 * i + 1) =
     0.5 * (complex_of_real c0 * (1 + xs ! i) -
            csqrt (complex_of_real (c0 * c0) * (1 + xs ! i) * (1 + xs ! i) - 4 * xs ! i))"
    unfolding bp_root_def a by simp
qed

lemma lp2bp_loop_stop: "\<not> i < n \<Longrightarrow> lp2bp_loop zd pd n c0 i (zdt, pdt) = (zdt, pdt)"
  by (subst lp2bp_loop.simps) simp

lemma lp2bp_loop_step:
  "i < n \<Longrightarrow> lp2bp_loop zd pd n c0 i (zdt, pdt) =
     lp2bp_loop zd pd n c0 (i + 1)
       (zdt[2 * i := bp_root c0 zd (2 * i), 2 * i + 1 := bp_root c0 zd (2 * i + 1)],
        pdt[2 * i := bp_root c0 pd (2 * i), 2 * i + 1 := bp_root c0 pd (2 * i + 1)])"
  by (subst lp2bp_loop.simps) (simp only: if_True Let_def bp_root_simps add_0_right)

lemma pair_update:
  assumes "i < n" "2 * n \<le> length (xs :: complex list)"
  shows "map (\<lambda>j. if 2 * Suc i \<le> j \<and> j < 2 * n then f j
                   else xs[2 * i := f (2 * i), 2 * i + 1 := f (2 * i + 1)] ! j)
             [0..<length xs]
       = map (\<lambda>j. if 2 * i \<le> j \<and> j < 2 * n then f j else xs ! j) [0..<length xs]"
proof (rule map_cong[OF refl])
  fix j assume "j \<in> set [0..<length xs]"
  then have jl: "j < length xs" by simp
  consider "j = 2 * i" | "j = 2 * i + 1" | "j < 2 * i" | "2 * Suc i \<le> j"
    by fastforce
  then show "(if 2 * Suc i \<le> j \<and> j < 2 * n then f j
        else xs[2 * i := f (2 * i), 2 * i + 1 := f (2 * i + 1)] ! j)
      = (if 2 * i \<le> j \<and> j < 2 * n then f j else xs ! j)"
    using assms jl by cases (simp_all add: nth_list_update)
qed

lemma lp2bp_loop_result:
  "2 * n \<le> length zdt \<Longrightarrow> 2 * n \<le> length pdt \<Longrightarrow>
   lp2bp_loop zd pd n c0 i (zdt, pdt) =
     (map (\<lambda>j. if 2 * i \<le> j \<and> j < 2 * n then bp_root c0 zd j else zdt ! j) [0..<length zdt],
      map (\<lambda>j. if 2 * i \<le> j \<and> j < 2 * n then bp_root c0 pd j else pdt ! j) [0..<length pdt])"
proof (induction "n - i" arbitrary: i zdt pdt)
  case 0
  then have ni: "\<not> i < n" by simp
  have "map (\<lambda>j. if 2 * i \<le> j \<and> j < 2 * n then bp_root c0 zd j else zdt ! j) [0..<length zdt] = zdt"
    "map (\<lambda>j. if 2 * i \<le> j \<and> j < 2 * n then bp_root c0 pd j else pdt ! j) [0..<length pdt] = pdt"
    using ni by (auto intro!: nth_equalityI)
  then show ?case using ni by (simp add: lp2bp_loop_stop)
next
  case (Suc d)
  then have inn: "i < n" and d: "d = n - Suc i" by simp_all
  let ?Z = "zdt[2 * i := bp_root c0 zd (2 * i), 2 * i + 1 := bp_root c0 zd (2 * i + 1)]"
  let ?P = "pdt[2 * i := bp_root c0 pd (2 * i), 2 * i + 1 := bp_root c0 pd (2 * i + 1)]"
  have l: "2 * n \<le> length ?Z" "2 * n \<le> length ?P" using Suc.prems by simp_all
  have lZ: "length ?Z = length zdt" and lP: "length ?P = length pdt" by simp_all
  have "lp2bp_loop zd pd n c0 i (zdt, pdt) = lp2bp_loop zd pd n c0 (Suc i) (?Z, ?P)"
    by (simp only: lp2bp_loop_step[OF inn] Suc_eq_plus1)
  also have "\<dots> =
     (map (\<lambda>j. if 2 * Suc i \<le> j \<and> j < 2 * n then bp_root c0 zd j else ?Z ! j) [0..<length ?Z],
      map (\<lambda>j. if 2 * Suc i \<le> j \<and> j < 2 * n then bp_root c0 pd j else ?P ! j) [0..<length ?P])"
    by (rule Suc.hyps(1)[OF d l])
  also have "\<dots> =
     (map (\<lambda>j. if 2 * i \<le> j \<and> j < 2 * n then bp_root c0 zd j else zdt ! j) [0..<length zdt],
      map (\<lambda>j. if 2 * i \<le> j \<and> j < 2 * n then bp_root c0 pd j else pdt ! j) [0..<length pdt])"
    unfolding lZ lP
      pair_update[OF inn Suc.prems(1), of "bp_root c0 zd"]
      pair_update[OF inn Suc.prems(2), of "bp_root c0 pd"] ..
  finally show ?case .
qed

lemma lp2bp_nth:
  assumes "2 * n \<le> length zdt" "2 * n \<le> length pdt"
    and "iirdes_dzpk_lp2bp zd pd n f0 zdt pdt = (zd1, pd1)"
  shows "length zd1 = length zdt" "length pd1 = length pdt"
    and "\<And>j. j < 2 * n \<Longrightarrow> zd1 ! j = bp_root (cos (2 * pi * f0)) zd j"
    and "\<And>j. j < 2 * n \<Longrightarrow> pd1 ! j = bp_root (cos (2 * pi * f0)) pd j"
proof -
  note r = assms(3)[unfolded iirdes_dzpk_lp2bp_def Let_def lp2bp_loop_result[OF assms(1,2)]]
  have z: "zd1 = map (\<lambda>j. if 2 * 0 \<le> j \<and> j < 2 * n then bp_root (cos (2 * pi * f0)) zd j else zdt ! j) [0..<length zdt]"
    and p: "pd1 = map (\<lambda>j. if 2 * 0 \<le> j \<and> j < 2 * n then bp_root (cos (2 * pi * f0)) pd j else pdt ! j) [0..<length pdt]"
    using r by simp_all
  show "length zd1 = length zdt" "length pd1 = length pdt" unfolding z p by simp_all
  show "\<And>j. j < 2 * n \<Longrightarrow> zd1 ! j = bp_root (cos (2 * pi * f0)) zd j" unfolding z using assms(1) by simp
  show "\<And>j. j < 2 * n \<Longrightarrow> pd1 ! j = bp_root (cos (2 * pi * f0)) pd j" unfolding p using assms(2) by simp
qed

lemma negate_fold:
  "n \<le> length zd \<Longrightarrow> n \<le> length pd \<Longrightarrow>
   fold (\<lambda>i (zd, pd). (zd[i := - zd ! i], pd[i := - pd ! i])) [0..<n] (zd, pd) =
     (map (\<lambda>j. if j < n then - zd ! j else zd ! j) [0..<length zd],
      map (\<lambda>j. if j < n then - pd ! j else pd ! j) [0..<length pd])"
proof (induction n)
  case 0
  show ?case by (simp add: map_nth)
next
  case (Suc n)
  then have l: "n < length zd" "n < length pd" by simp_all
  have z: "(map (\<lambda>j. if j < n then - zd ! j else zd ! j) [0..<length zd])
        [n := - map (\<lambda>j. if j < n then - zd ! j else zd ! j) [0..<length zd] ! n]
      = map (\<lambda>j. if j < Suc n then - zd ! j else zd ! j) [0..<length zd]"
    using l by (intro nth_equalityI) (auto simp: nth_list_update less_Suc_eq)
  have p: "(map (\<lambda>j. if j < n then - pd ! j else pd ! j) [0..<length pd])
        [n := - map (\<lambda>j. if j < n then - pd ! j else pd ! j) [0..<length pd] ! n]
      = map (\<lambda>j. if j < Suc n then - pd ! j else pd ! j) [0..<length pd]"
    using l by (intro nth_equalityI) (auto simp: nth_list_update less_Suc_eq)
  show ?case
    using Suc.IH l z p by simp
qed

lemma negate_nth:
  assumes "n \<le> length zd" "n \<le> length pd" "iirdes_negate btype n zd pd = (zn, pn)"
  shows "length zn = length zd" "length pn = length pd"
    and "btype = LIQUID_IIRDES_HIGHPASS \<or> btype = LIQUID_IIRDES_BANDSTOP \<Longrightarrow>
           i < n \<Longrightarrow> zn ! i = - zd ! i \<and> pn ! i = - pd ! i"
    and "\<not> (btype = LIQUID_IIRDES_HIGHPASS \<or> btype = LIQUID_IIRDES_BANDSTOP) \<Longrightarrow> zn = zd \<and> pn = pd"
proof -
  show "\<not> (btype = LIQUID_IIRDES_HIGHPASS \<or> btype = LIQUID_IIRDES_BANDSTOP) \<Longrightarrow> zn = zd \<and> pn = pd"
    using assms(3) by (simp add: iirdes_negate_def)
  show "length zn = length zd" "length pn = length pd"
    using assms(3) by (auto simp: iirdes_negate_def negate_fold[OF assms(1,2)] split: if_splits)
  show "btype = LIQUID_IIRDES_HIGHPASS \<or> btype = LIQUID_IIRDES_BANDSTOP \<Longrightarrow>
           i < n \<Longrightarrow> zn ! i = - zd ! i \<and> pn ! i = - pd ! i"
    using assms by (auto simp: iirdes_negate_def negate_fold[OF assms(1,2)] split: if_splits)
qed

lemma bandtransform_nth:
  assumes "2 * n \<le> length (loc_zd1 loc)" "2 * n \<le> length (loc_pd1 loc)"
    and "btype = LIQUID_IIRDES_BANDPASS \<or> btype = LIQUID_IIRDES_BANDSTOP"
    and "iirdes_bandtransform btype n f0 zn pn loc = (zd', pd', n')"
  shows "n' = 2 * n"
    and "\<And>j. j < 2 * n \<Longrightarrow> zd' ! j = bp_root (cos (2 * pi * f0)) zn j"
    and "\<And>j. j < 2 * n \<Longrightarrow> pd' ! j = bp_root (cos (2 * pi * f0)) pn j"
proof -
  obtain zd1 pd1 where lp: "iirdes_dzpk_lp2bp zn pn n f0 (loc_zd1 loc) (loc_pd1 loc) = (zd1, pd1)"
    by (cases "iirdes_dzpk_lp2bp zn pn n f0 (loc_zd1 loc) (loc_pd1 loc)") blast
  note nth = lp2bp_nth[OF assms(1,2) lp]
  have r: "zd' = take (2 * n) zd1 @ drop (2 * n) zn" "pd' = take (2 * n) pd1 @ drop (2 * n) pn" "n' = 2 * n"
    using assms(3,4) by (auto simp: iirdes_bandtransform_def lp)
  show "n' = 2 * n" by (rule r(3))
  show "\<And>j. j < 2 * n \<Longrightarrow> zd' ! j = bp_root (cos (2 * pi * f0)) zn j"
    unfolding r(1) using nth(1,3) assms(1) by (simp add: nth_append)
  show "\<And>j. j < 2 * n \<Longrightarrow> pd' ! j = bp_root (cos (2 * pi * f0)) pn j"
    unfolding r(2) using nth(2,4) assms(2) by (simp add: nth_append)
qed

lemma iirdes_digital_unfold:
  assumes "bilinear_zpkf za nza pa n k0 (iirdes_freqprewarp btype fc f0) (loc_zd loc) (loc_pd loc) = (zl, pl, kd)"
    and "iirdes_negate btype n zl pl = (zn, pn)"
    and "iirdes_bandtransform btype n f0 zn pn loc = (zd', pd', n')"
  shows "iirdes_digital btype n fc f0 nza k0 za pa loc = (zd', pd', n', kd)"
  by (simp add: iirdes_digital_def Let_def assms)

text \<open>
  C7. In \<^verbatim>\<open>iirdes\<close>, with local arrays of the declared sizes: \<open>zl, pl\<close> are the low-pass
  prototype after \<^verbatim>\<open>bilinear_zpkf\<close> and \<open>zn, pn\<close> the arrays after the negation step. For
  high-pass and band-stop every zero and pole below \<open>n\<close> is negated; for low-pass and
  high-pass nothing more happens; for band-pass and band-stop the order becomes \<open>2 n\<close>
  and every root \<open>x\<close> of \<open>zn\<close> and of \<open>pn\<close> yields the two roots
  \<open>0.5 (c0 t + sqrt (c0\<^sup>2 t\<^sup>2 - 4 x))\<close> and \<open>0.5 (c0 t - sqrt (c0\<^sup>2 t\<^sup>2 - 4 x))\<close> with \<open>t = 1 + x\<close> and
  \<open>c0 = cos (2 pi f0)\<close>, at the indices \<open>2 i\<close> and \<open>2 i + 1\<close>.
\<close>

theorem iirdes_band_steps:
  assumes "n \<le> length (loc_zd loc)" "n \<le> length (loc_pd loc)"
    and "2 * n \<le> length (loc_zd1 loc)" "2 * n \<le> length (loc_pd1 loc)"
    and "bilinear_zpkf za nza pa n k0 (iirdes_freqprewarp btype fc f0) (loc_zd loc) (loc_pd loc) = (zl, pl, kd)"
    and "iirdes_negate btype n zl pl = (zn, pn)"
    and "iirdes_digital btype n fc f0 nza k0 za pa loc = (zd', pd', n', kd')"
  shows "(btype = LIQUID_IIRDES_HIGHPASS \<or> btype = LIQUID_IIRDES_BANDSTOP \<longrightarrow>
            (\<forall>i<n. zn ! i = - zl ! i \<and> pn ! i = - pl ! i)) \<and>
         (btype = LIQUID_IIRDES_LOWPASS \<or> btype = LIQUID_IIRDES_BANDPASS \<longrightarrow> zn = zl \<and> pn = pl) \<and>
         (btype = LIQUID_IIRDES_LOWPASS \<or> btype = LIQUID_IIRDES_HIGHPASS \<longrightarrow>
            n' = n \<and> zd' = zn \<and> pd' = pn) \<and>
         (btype = LIQUID_IIRDES_BANDPASS \<or> btype = LIQUID_IIRDES_BANDSTOP \<longrightarrow>
            n' = 2 * n \<and>
            (\<forall>i<n.
               zd' ! (2 * i) = 0.5 * (complex_of_real (cos (2 * pi * f0)) * (1 + zn ! i) +
                  csqrt ((complex_of_real (cos (2 * pi * f0)))\<^sup>2 * (1 + zn ! i)\<^sup>2 - 4 * zn ! i)) \<and>
               zd' ! (2 * i + 1) = 0.5 * (complex_of_real (cos (2 * pi * f0)) * (1 + zn ! i) -
                  csqrt ((complex_of_real (cos (2 * pi * f0)))\<^sup>2 * (1 + zn ! i)\<^sup>2 - 4 * zn ! i)) \<and>
               pd' ! (2 * i) = 0.5 * (complex_of_real (cos (2 * pi * f0)) * (1 + pn ! i) +
                  csqrt ((complex_of_real (cos (2 * pi * f0)))\<^sup>2 * (1 + pn ! i)\<^sup>2 - 4 * pn ! i)) \<and>
               pd' ! (2 * i + 1) = 0.5 * (complex_of_real (cos (2 * pi * f0)) * (1 + pn ! i) -
                  csqrt ((complex_of_real (cos (2 * pi * f0)))\<^sup>2 * (1 + pn ! i)\<^sup>2 - 4 * pn ! i))))"
proof -
  have ll: "n \<le> length zl" "n \<le> length pl"
    using bilinear_zpkf_nth(4,5)[OF assms(1,2,5)] assms(1,2) by simp_all
  note neg = negate_nth[OF ll assms(6)]
  obtain zt pt nt where bt: "iirdes_bandtransform btype n f0 zn pn loc = (zt, pt, nt)"
    by (cases "iirdes_bandtransform btype n f0 zn pn loc") blast
  have "iirdes_digital btype n fc f0 nza k0 za pa loc = (zt, pt, nt, kd)"
    using assms(5,6) bt by (rule iirdes_digital_unfold)
  then have eq: "zt = zd'" "pt = pd'" "nt = n'" using assms(7) by simp_all
  note bt' = bt[unfolded eq]
  have c1: "btype = LIQUID_IIRDES_HIGHPASS \<or> btype = LIQUID_IIRDES_BANDSTOP \<longrightarrow>
            (\<forall>i<n. zn ! i = - zl ! i \<and> pn ! i = - pl ! i)"
    using neg(3) by blast
  have c2: "btype = LIQUID_IIRDES_LOWPASS \<or> btype = LIQUID_IIRDES_BANDPASS \<longrightarrow> zn = zl \<and> pn = pl"
    using neg(4) by auto
  have c3: "btype = LIQUID_IIRDES_LOWPASS \<or> btype = LIQUID_IIRDES_HIGHPASS \<longrightarrow>
            n' = n \<and> zd' = zn \<and> pd' = pn"
    using bt' by (auto simp: iirdes_bandtransform_def)
  have sq: "\<And>c t x :: complex. c\<^sup>2 * t\<^sup>2 - 4 * x = c * c * t * t - 4 * x"
    by (simp add: power2_eq_square)
  have c4: "btype = LIQUID_IIRDES_BANDPASS \<or> btype = LIQUID_IIRDES_BANDSTOP \<longrightarrow>
            n' = 2 * n \<and>
            (\<forall>i<n.
               zd' ! (2 * i) = 0.5 * (complex_of_real (cos (2 * pi * f0)) * (1 + zn ! i) +
                  csqrt ((complex_of_real (cos (2 * pi * f0)))\<^sup>2 * (1 + zn ! i)\<^sup>2 - 4 * zn ! i)) \<and>
               zd' ! (2 * i + 1) = 0.5 * (complex_of_real (cos (2 * pi * f0)) * (1 + zn ! i) -
                  csqrt ((complex_of_real (cos (2 * pi * f0)))\<^sup>2 * (1 + zn ! i)\<^sup>2 - 4 * zn ! i)) \<and>
               pd' ! (2 * i) = 0.5 * (complex_of_real (cos (2 * pi * f0)) * (1 + pn ! i) +
                  csqrt ((complex_of_real (cos (2 * pi * f0)))\<^sup>2 * (1 + pn ! i)\<^sup>2 - 4 * pn ! i)) \<and>
               pd' ! (2 * i + 1) = 0.5 * (complex_of_real (cos (2 * pi * f0)) * (1 + pn ! i) -
                  csqrt ((complex_of_real (cos (2 * pi * f0)))\<^sup>2 * (1 + pn ! i)\<^sup>2 - 4 * pn ! i)))"
  proof (intro impI conjI allI)
    assume b: "btype = LIQUID_IIRDES_BANDPASS \<or> btype = LIQUID_IIRDES_BANDSTOP"
    note t = bandtransform_nth[OF assms(3,4) b bt']
    show "n' = 2 * n" by (rule t(1))
    fix i assume i: "i < n"
    then have lt: "2 * i < 2 * n" "2 * i + 1 < 2 * n" by simp_all
    show "zd' ! (2 * i) = 0.5 * (complex_of_real (cos (2 * pi * f0)) * (1 + zn ! i) +
                  csqrt ((complex_of_real (cos (2 * pi * f0)))\<^sup>2 * (1 + zn ! i)\<^sup>2 - 4 * zn ! i))"
      unfolding t(2)[OF lt(1)] bp_root_simps sq by simp
    show "zd' ! (2 * i + 1) = 0.5 * (complex_of_real (cos (2 * pi * f0)) * (1 + zn ! i) -
                  csqrt ((complex_of_real (cos (2 * pi * f0)))\<^sup>2 * (1 + zn ! i)\<^sup>2 - 4 * zn ! i))"
      unfolding t(2)[OF lt(2)] bp_root_simps sq by simp
    show "pd' ! (2 * i) = 0.5 * (complex_of_real (cos (2 * pi * f0)) * (1 + pn ! i) +
                  csqrt ((complex_of_real (cos (2 * pi * f0)))\<^sup>2 * (1 + pn ! i)\<^sup>2 - 4 * pn ! i))"
      unfolding t(3)[OF lt(1)] bp_root_simps sq by simp
    show "pd' ! (2 * i + 1) = 0.5 * (complex_of_real (cos (2 * pi * f0)) * (1 + pn ! i) -
                  csqrt ((complex_of_real (cos (2 * pi * f0)))\<^sup>2 * (1 + pn ! i)\<^sup>2 - 4 * pn ! i))"
      unfolding t(3)[OF lt(2)] bp_root_simps sq by simp
  qed
  show ?thesis by (intro conjI c1 c2 c3 c4)
qed

theorem iirdes_band_steps_witness:
  "fst (snd (snd (iirdes_digital LIQUID_IIRDES_BANDSTOP 1 (1 / 4) 0 0 1 [] [- 1]
      \<lparr>loc_zd = [0, 0], loc_pd = [0, 0], loc_zd1 = [0, 0], loc_pd1 = [0, 0],
       loc_zp = [0, 0], loc_pp = [0, 0]\<rparr>))) = 2 * 1"
proof -
  let ?loc = "\<lparr>loc_zd = [0, 0], loc_pd = [0, 0], loc_zd1 = [0, 0], loc_pd1 = [0, 0],
       loc_zp = [0, 0], loc_pp = [0 :: complex, 0]\<rparr>"
  obtain zl pl kd where b: "bilinear_zpkf [] 0 [- 1] 1 1 (iirdes_freqprewarp LIQUID_IIRDES_BANDSTOP (1 / 4) 0)
      (loc_zd ?loc) (loc_pd ?loc) = (zl, pl, kd)"
    by (metis prod_cases3)
  obtain zn pn where ng: "iirdes_negate LIQUID_IIRDES_BANDSTOP 1 zl pl = (zn, pn)"
    by (metis surj_pair)
  obtain zd' pd' n' kd' where d: "iirdes_digital LIQUID_IIRDES_BANDSTOP 1 (1 / 4) 0 0 1 [] [- 1] ?loc = (zd', pd', n', kd')"
    by (metis prod_cases4)
  have l: "(1::nat) \<le> length (loc_zd ?loc)" "(1::nat) \<le> length (loc_pd ?loc)"
    "2 * (1::nat) \<le> length (loc_zd1 ?loc)" "2 * (1::nat) \<le> length (loc_pd1 ?loc)"
    by simp_all
  from iirdes_band_steps[OF l b ng d] have "n' = 2 * 1" by blast
  then show ?thesis unfolding d by simp
qed

lemma sosf_Inr: "\<exists>B' A' w. iirdes_dzpk2sosf zd pd n kd B A zp0 pp0 = Inr (B', A', w)"
proof -
  have t: "(0::real) \<le> 8796093 / 8796093022208" by simp
  obtain zp wz where z: "cplxpair_arrays (take n zd) n (8796093 / 8796093022208) zp0 = Inr (zp, wz)"
    using cplxpair_arrays_Inr[OF t] by blast
  obtain pp wp where p: "cplxpair_arrays (take n pd) n (8796093 / 8796093022208) pp0 = Inr (pp, wp)"
    using cplxpair_arrays_Inr[OF t] by blast
  obtain B1 A1 where loop: "sos_loop zp pp (n div 2) 0 (B, A) = (B1, A1)"
    by (cases "sos_loop zp pp (n div 2) 0 (B, A)") blast
  show ?thesis
    using sosf_unfold[OF z p loop refl refl] by blast
qed

lemma iirdes_valid_unfold:
  assumes "0 < fc" "fc < 1 / 2" "0 \<le> f0" "f0 \<le> 1 / 2" "0 < Ap" "0 < As" "0 < n"
    and "iirdes_prototype g ftype n Ap As = Inr (nza, k0, za, pa, ka)"
    and "iirdes_digital btype n fc f0 nza k0 za pa loc = (zd, pd, n', kd)"
  shows "iirdes g expandroots ftype btype format n fc f0 Ap As B A loc =
     (if format = LIQUID_IIRDES_TF
      then (let (B', A') = iirdes_dzpk2tff expandroots zd pd n' kd B A in Inr (B', A', []))
      else iirdes_dzpk2sosf zd pd n' kd B A (loc_zp loc) (loc_pp loc))"
  using assms(1-7) by (simp add: iirdes_def assms(8,9))

lemma iirdes_valid_Inr:
  assumes "0 < fc" "fc < 1 / 2" "0 \<le> f0" "f0 \<le> 1 / 2" "0 < Ap" "0 < As" "0 < n"
    and "iirdes_prototype g ftype n Ap As = Inr (nza, k0, za, pa, ka)"
  shows "\<exists>B' A' w. iirdes g expandroots ftype btype format n fc f0 Ap As B A loc = Inr (B', A', w)"
proof -
  obtain zd pd n' kd where d: "iirdes_digital btype n fc f0 nza k0 za pa loc = (zd, pd, n', kd)"
    by (metis prod_cases4)
  note u = iirdes_valid_unfold[OF assms d, of expandroots format B A]
  show ?thesis
  proof (cases "format = LIQUID_IIRDES_TF")
    case True
    then show ?thesis unfolding u by (simp add: split_beta)
  next
    case False
    then show ?thesis unfolding u using sosf_Inr by simp
  qed
qed

text \<open>
  C9. A band type that is none of the four members is not rejected. The pre-warp factor
  is \<open>0\<close>; the digital zeros, poles and gain are those of \<^verbatim>\<open>bilinear_zpkf\<close> with the factor
  \<open>0\<close>, with the order unchanged (no negation, no band transform); and with the other
  arguments valid and a known filter type the call returns.
\<close>

theorem iirdes_unknown_bandtype:
  assumes "0 < fc" "fc < 1 / 2" "0 \<le> f0" "f0 \<le> 1 / 2" "0 < Ap" "0 < As" "0 < n"
    and "iirdes_prototype g ftype n Ap As = Inr (nza, k0, za, pa, ka)"
    and "bilinear_zpkf za nza pa n k0 0 (loc_zd loc) (loc_pd loc) = (zd, pd, kd)"
  shows "iirdes_freqprewarp (Bandtype_other v) fc f0 = 0 \<and>
         iirdes_digital (Bandtype_other v) n fc f0 nza k0 za pa loc = (zd, pd, n, kd) \<and>
         (\<exists>B' A' w. iirdes g expandroots ftype (Bandtype_other v) format n fc f0 Ap As B A loc
                       = Inr (B', A', w))"
proof -
  have m: "iirdes_freqprewarp (Bandtype_other v) fc f0 = 0"
    by (simp add: iirdes_freqprewarp_def)
  have d: "iirdes_digital (Bandtype_other v) n fc f0 nza k0 za pa loc = (zd, pd, n, kd)"
    by (simp add: iirdes_digital_def m assms(9) iirdes_negate_def iirdes_bandtransform_def)
  show ?thesis
    using m d iirdes_valid_Inr[OF assms(1-8)] by blast
qed

text \<open>
  C4. A cutoff frequency outside \<open>(0, 0.5)\<close>, a center frequency outside \<open>[0, 0.5]\<close>, a
  ripple or attenuation that is not positive, or the order \<open>0\<close> ends the call with
  \<^verbatim>\<open>exit(1)\<close> and no output, whatever the prototype generators and the root expansion
  are (they are not reached); so does a filter type that is none of the five members.
\<close>

theorem iirdes_rejects:
  "(fc \<le> 0 \<or> 1 / 2 \<le> fc \<or> f0 < 0 \<or> 1 / 2 < f0 \<or> Ap \<le> 0 \<or> As \<le> 0 \<or> n = 0 \<longrightarrow>
      (\<exists>msg. \<forall>g expandroots.
         iirdes g expandroots ftype btype format n fc f0 Ap As B A loc = Inl (Exit_failure msg))) \<and>
   (\<exists>msg. \<forall>g expandroots.
      iirdes g expandroots (Filtertype_other v) btype format n fc f0 Ap As B A loc = Inl (Exit_failure msg))"
proof -
  have a: "fc \<le> 0 \<or> 1 / 2 \<le> fc \<or> f0 < 0 \<or> 1 / 2 < f0 \<or> Ap \<le> 0 \<or> As \<le> 0 \<or> n = 0 \<Longrightarrow>
      \<exists>msg. \<forall>g expandroots.
         iirdes g expandroots ft btype format n fc f0 Ap As B A loc = Inl (Exit_failure msg)" for ft
  proof -
    assume inv: "fc \<le> 0 \<or> 1 / 2 \<le> fc \<or> f0 < 0 \<or> 1 / 2 < f0 \<or> Ap \<le> 0 \<or> As \<le> 0 \<or> n = 0"
    consider (fc) "fc \<le> 0 \<or> 1 / 2 \<le> fc"
      | (f0) "\<not> (fc \<le> 0 \<or> 1 / 2 \<le> fc)" "f0 < 0 \<or> 1 / 2 < f0"
      | (Ap) "\<not> (fc \<le> 0 \<or> 1 / 2 \<le> fc)" "\<not> (f0 < 0 \<or> 1 / 2 < f0)" "Ap \<le> 0"
      | (As) "\<not> (fc \<le> 0 \<or> 1 / 2 \<le> fc)" "\<not> (f0 < 0 \<or> 1 / 2 < f0)" "\<not> Ap \<le> 0" "As \<le> 0"
      | (n) "\<not> (fc \<le> 0 \<or> 1 / 2 \<le> fc)" "\<not> (f0 < 0 \<or> 1 / 2 < f0)" "\<not> Ap \<le> 0" "\<not> As \<le> 0" "n = 0"
      using inv by blast
    then show ?thesis
    proof cases
      case fc
      then have "\<forall>g expandroots. iirdes g expandroots ft btype format n fc f0 Ap As B A loc =
          Inl (Exit_failure ''error: iirdes(), cutoff frequency out of range'')"
        unfolding iirdes_def by auto
      then show ?thesis by (rule exI)
    next
      case f0
      then have "\<forall>g expandroots. iirdes g expandroots ft btype format n fc f0 Ap As B A loc =
          Inl (Exit_failure ''error: iirdes(), center frequency out of range'')"
        unfolding iirdes_def by auto
      then show ?thesis by (rule exI)
    next
      case Ap
      then have "\<forall>g expandroots. iirdes g expandroots ft btype format n fc f0 Ap As B A loc =
          Inl (Exit_failure ''error: iirdes(), pass-band ripple out of range'')"
        unfolding iirdes_def by auto
      then show ?thesis by (rule exI)
    next
      case As
      then have "\<forall>g expandroots. iirdes g expandroots ft btype format n fc f0 Ap As B A loc =
          Inl (Exit_failure ''error: iirdes(), stop-band ripple out of range'')"
        unfolding iirdes_def by auto
      then show ?thesis by (rule exI)
    next
      case n
      then have "\<forall>g expandroots. iirdes g expandroots ft btype format n fc f0 Ap As B A loc =
          Inl (Exit_failure ''error: iirdes(), filter order must be > 0'')"
        unfolding iirdes_def by auto
      then show ?thesis by (rule exI)
    qed
  qed
  have b: "\<not> (fc \<le> 0 \<or> 1 / 2 \<le> fc \<or> f0 < 0 \<or> 1 / 2 < f0 \<or> Ap \<le> 0 \<or> As \<le> 0 \<or> n = 0) \<Longrightarrow>
      \<forall>g expandroots.
         iirdes g expandroots (Filtertype_other v) btype format n fc f0 Ap As B A loc =
           Inl (Exit_failure ''error: iirdes(), unknown filter type'')"
    by (simp add: iirdes_def iirdes_prototype_def)
  have c: "\<exists>msg. \<forall>g expandroots.
      iirdes g expandroots (Filtertype_other v) btype format n fc f0 Ap As B A loc = Inl (Exit_failure msg)"
  proof (cases "fc \<le> 0 \<or> 1 / 2 \<le> fc \<or> f0 < 0 \<or> 1 / 2 < f0 \<or> Ap \<le> 0 \<or> As \<le> 0 \<or> n = 0")
    case True
    then show ?thesis by (rule a)
  next
    case False
    then show ?thesis using b by (intro exI) blast
  qed
  show ?thesis
    using a[of ftype] c by (intro conjI impI)
qed

theorem iirdes_rejects_witness:
  "\<exists>msg. \<forall>g expandroots.
     iirdes g expandroots LIQUID_IIRDES_BUTTER LIQUID_IIRDES_LOWPASS LIQUID_IIRDES_SOS 0 (1 / 4) 0 1 60
       [] []
       \<lparr>loc_zd = [], loc_pd = [], loc_zd1 = [], loc_pd1 = [], loc_zp = [], loc_pp = []\<rparr>
     = Inl (Exit_failure msg)"
proof -
  have h: "(1 / 4 :: real) \<le> 0 \<or> 1 / 2 \<le> (1 / 4 :: real) \<or> (0 :: real) < 0 \<or> 1 / 2 < (0 :: real) \<or>
           (1 :: real) \<le> 0 \<or> (60 :: real) \<le> 0 \<or> (0 :: nat) = 0"
    by simp
  from iirdes_rejects[of "1 / 4" 0 1 60 0 LIQUID_IIRDES_BUTTER LIQUID_IIRDES_LOWPASS LIQUID_IIRDES_SOS
      "[]" "[]" "\<lparr>loc_zd = [], loc_pd = [], loc_zd1 = [], loc_pd1 = [], loc_zp = [], loc_pp = []\<rparr>"]
    h
  show ?thesis by blast
qed

theorem iirdes_unknown_bandtype_witness:
  "iirdes_freqprewarp (Bandtype_other 7) (1 / 4) 0 = 0 \<and>
   iirdes_digital (Bandtype_other 7) 1 (1 / 4) 0 0 1 [] [- 1]
     \<lparr>loc_zd = [0, 0], loc_pd = [0, 0], loc_zd1 = [0, 0], loc_pd1 = [0, 0], loc_zp = [0], loc_pp = [0]\<rparr>
     = ([- 1, 0], [1, 0], 1, 0) \<and>
   (\<exists>B' A' w.
      iirdes \<lparr>butter_azpkf = (\<lambda>n. ([], [- 1], 1)), cheby1_azpkf = (\<lambda>n e. ([], [], 0)),
              cheby2_azpkf = (\<lambda>n e. ([], [], 0)), ellip_azpkf = (\<lambda>n e e'. ([], [], 0)),
              bessel_azpkf = (\<lambda>n. ([], [], 0))\<rparr>
        (\<lambda>r n. []) LIQUID_IIRDES_BUTTER (Bandtype_other 7) LIQUID_IIRDES_SOS 1 (1 / 4) 0 1 60
        [0, 0, 0] [0, 0, 0]
        \<lparr>loc_zd = [0, 0], loc_pd = [0, 0], loc_zd1 = [0, 0], loc_pd1 = [0, 0], loc_zp = [0], loc_pp = [0]\<rparr>
      = Inr (B', A', w))"
proof -
  let ?g = "\<lparr>butter_azpkf = (\<lambda>n. ([], [- 1], 1)), cheby1_azpkf = (\<lambda>n e. ([], [], 0)),
              cheby2_azpkf = (\<lambda>n e. ([], [], 0)), ellip_azpkf = (\<lambda>n e e'. ([], [], 0)),
              bessel_azpkf = (\<lambda>n. ([], [], 0))\<rparr> :: analog_prototypes"
  let ?loc = "\<lparr>loc_zd = [0, 0], loc_pd = [0, 0], loc_zd1 = [0, 0], loc_pd1 = [0, 0],
               loc_zp = [0], loc_pp = [0 :: complex]\<rparr>"
  have v: "(0::real) < 1 / 4" "(1 / 4 :: real) < 1 / 2" "(0::real) \<le> 0" "(0::real) \<le> 1 / 2"
    "(0::real) < 1" "(0::real) < 60" "(0::nat) < 1"
    by simp_all
  have pr: "iirdes_prototype ?g LIQUID_IIRDES_BUTTER 1 1 60 = Inr (0, 1, [], [- 1], 1)"
    by (simp add: iirdes_prototype_def)
  have bl: "bilinear_zpkf [] 0 [- 1] 1 1 0 (loc_zd ?loc) (loc_pd ?loc) = ([- 1, 0], [1, 0], 0)"
    by (simp add: bilinear_zpkf_def bilinear_loop.simps)
  show ?thesis
    by (rule iirdes_unknown_bandtype[OF v pr bl])
qed

end
